theory Spec2Isabelle
  imports Complex_Main "HOL-Library.Word" "HOL-Library.Monad_Syntax"
begin

section \<open>The locus graph (SVLocus)\<close>

subsection \<open>Data types\<close>

text \<open>
  \<^verbatim>\<open>NodeIndexType\<close> and \<^verbatim>\<open>LocusIndexType\<close> are \<^verbatim>\<open>unsigned\<close>, the chromosome
  id is \<^verbatim>\<open>int32_t\<close>, positions are \<^verbatim>\<open>pos_t\<close> (32 bits), the counts of a node and of
  an edge are \<^verbatim>\<open>unsigned short\<close>. The words hold the bits; signedness is only a reading
  of them and no operation below depends on it.
\<close>

type_synonym NodeIndexType = "32 word"
type_synonym LocusIndexType = "32 word"

text \<open>
  Modelled from the spec: \<^verbatim>\<open>known_pos_range\<close> (blt\_util/pos\_range.hh) is the
  half-open range \<open>[begin, end)\<close> of a GenomeInterval; \<^verbatim>\<open>set_range\<close> stores both
  ends.
\<close>

record known_pos_range =
  begin_pos :: "32 word"
  end_pos :: "32 word"

definition set_range :: "32 word \<Rightarrow> 32 word \<Rightarrow> known_pos_range \<Rightarrow> known_pos_range" where
  "set_range b e r = r\<lparr>begin_pos := b, end_pos := e\<rparr>"

record GenomeInterval =
  tid :: "32 word"
  range :: known_pos_range

text \<open>The constructor \<^verbatim>\<open>GenomeInterval(initTid = 0, beginPos = 0, endPos = 0)\<close>.\<close>

definition GenomeInterval_init :: GenomeInterval where
  "GenomeInterval_init = \<lparr>tid = 0, range = \<lparr>begin_pos = 0, end_pos = 0\<rparr>\<rparr>"

text \<open>
  \<^verbatim>\<open>SVLocusEdge\<close> has the single field \<^verbatim>\<open>count\<close>; it is named \<open>edge_count\<close> here
  because the node has a field \<^verbatim>\<open>count\<close> as well.
\<close>

record SVLocusEdge =
  edge_count :: "16 word"

text \<open>
  \<^verbatim>\<open>SVLocusEdge(const unsigned init_count)\<close> stores an \<^verbatim>\<open>unsigned\<close> into an
  \<^verbatim>\<open>unsigned short\<close>: the value is cut to 16 bits.
\<close>

definition SVLocusEdge_init :: "32 word \<Rightarrow> SVLocusEdge" where
  "SVLocusEdge_init init_count = \<lparr>edge_count = ucast init_count\<rparr>"

text \<open>
  \<^verbatim>\<open>edges_type\<close> is \<^verbatim>\<open>std::map<NodeIndexType,SVLocusEdge>\<close>: an association list
  whose keys ascend strictly, which is the order a \<^verbatim>\<open>BOOST_FOREACH\<close> over the map
  visits. \<open>edges_ok\<close> is that representation invariant.
\<close>

type_synonym edges_type = "(NodeIndexType \<times> SVLocusEdge) list"

definition edges_ok :: "edges_type \<Rightarrow> bool" where
  "edges_ok es = sorted_wrt (<) (map fst es)"

text \<open>\<^verbatim>\<open>std::map::count(key)\<close>: 1 when the key is present, else 0.\<close>

definition edges_count :: "edges_type \<Rightarrow> NodeIndexType \<Rightarrow> nat" where
  "edges_count es k = (if k \<in> set (map fst es) then 1 else 0)"

text \<open>
  \<^verbatim>\<open>std::map::insert(std::make_pair(k, v))\<close>: nothing happens when the key is
  already present; otherwise the pair goes to its place in the key order.
\<close>

fun edges_place :: "NodeIndexType \<Rightarrow> SVLocusEdge \<Rightarrow> edges_type \<Rightarrow> edges_type" where
  "edges_place k v [] = [(k, v)]"
| "edges_place k v ((k', v') # es) =
     (if k < k' then (k, v) # (k', v') # es else (k', v') # edges_place k v es)"

definition edges_insert :: "edges_type \<Rightarrow> NodeIndexType \<times> SVLocusEdge \<Rightarrow> edges_type" where
  "edges_insert es kv =
     (if edges_count es (fst kv) = 0 then edges_place (fst kv) (snd kv) es else es)"

record SVLocusNode =
  count :: "16 word"
  interval :: GenomeInterval
  edges :: edges_type

text \<open>The default constructor \<^verbatim>\<open>SVLocusNode() : count(0)\<close>.\<close>

definition SVLocusNode_init :: SVLocusNode where
  "SVLocusNode_init = \<lparr>count = 0, interval = GenomeInterval_init, edges = []\<rparr>"

text \<open>Every node of a graph holds an edge map that satisfies the invariant.\<close>

definition edge_maps_ok :: "SVLocusNode list \<Rightarrow> bool" where
  "edge_maps_ok ns = list_all (\<lambda>n. edges_ok (edges n)) ns"

text \<open>
  The copy constructor \<^verbatim>\<open>SVLocusNode(const SVLocusNode& in, const unsigned offset)\<close>:
  count and interval are copied, every edge is inserted under the key
  \<^verbatim>\<open>val.first+offset\<close> (unsigned addition, which wraps).
\<close>

definition SVLocusNode_copy :: "SVLocusNode \<Rightarrow> 32 word \<Rightarrow> SVLocusNode" where
  "SVLocusNode_copy in_node offset =
     \<lparr>count = count in_node, interval = interval in_node,
      edges = foldl (\<lambda>es val. edges_insert es (fst val + offset, snd val)) [] (edges in_node)\<rparr>"

text \<open>
  \<^verbatim>\<open>SVLocusNodeMoveMessage\<close> is
  \<^verbatim>\<open>std::pair<bool, std::pair<LocusIndexType,NodeIndexType> >\<close>.
\<close>

type_synonym SVLocusNodeMoveMessage = "bool \<times> (LocusIndexType \<times> NodeIndexType)"

text \<open>
  \<^verbatim>\<open>SVLocus\<close> has the members \<^verbatim>\<open>_graph\<close> and \<^verbatim>\<open>_index\<close> (an Isabelle name cannot
  start with an underscore). Modelled from the spec: the base class
  \<^verbatim>\<open>notifier<SVLocusNodeMoveMessage>\<close> (blt\_util/observer.hh) delivers every message
  synchronously to the subscribers; \<open>notified\<close> is the sequence of messages handed to
  \<^verbatim>\<open>notify_observers\<close> so far, oldest first.
\<close>

record SVLocus =
  graph :: "SVLocusNode list"
  index :: LocusIndexType
  notified :: "SVLocusNodeMoveMessage list"

text \<open>The constructor \<^verbatim>\<open>SVLocus(const LocusIndexType index = 0)\<close>.\<close>

definition SVLocus_init :: "LocusIndexType \<Rightarrow> SVLocus" where
  "SVLocus_init i = \<lparr>graph = [], index = i, notified = []\<rparr>"

datatype error = AssertionFailure | ArchiveException

subsection \<open>Operations\<close>

text \<open>\<^verbatim>\<open>size()\<close> returns \<^verbatim>\<open>unsigned\<close>: the vector's size cut to 32 bits.\<close>

definition size_locus :: "SVLocus \<Rightarrow> 32 word" where
  "size_locus g = of_nat (length (graph g))"

definition updateIndex :: "LocusIndexType \<Rightarrow> SVLocus \<Rightarrow> SVLocus" where
  "updateIndex i g = g\<lparr>index := i\<rparr>"

definition notify_observers :: "SVLocusNodeMoveMessage \<Rightarrow> SVLocus \<Rightarrow> SVLocus" where
  "notify_observers msg g = g\<lparr>notified := notified g @ [msg]\<rparr>"

definition notifyAdd :: "NodeIndexType \<Rightarrow> SVLocus \<Rightarrow> SVLocus" where
  "notifyAdd nodePtr g = notify_observers (True, (index g, nodePtr)) g"

definition notifyDelete :: "NodeIndexType \<Rightarrow> SVLocus \<Rightarrow> SVLocus" where
  "notifyDelete nodePtr g = notify_observers (False, (index g, nodePtr)) g"

text \<open>\<^verbatim>\<open>std::vector::resize(n)\<close>: cut to \<open>n\<close> elements or filled up with default nodes.\<close>

definition resize_graph :: "nat \<Rightarrow> SVLocusNode list \<Rightarrow> SVLocusNode list" where
  "resize_graph n ns = take n ns @ replicate (n - length ns) SVLocusNode_init"

definition maxIndex :: "32 word" where
  "maxIndex = - 1"

text \<open>
  \<^verbatim>\<open>newGraphNode\<close>: \<^verbatim>\<open>unsigned index(_graph.size()); assert(index<maxIndex);
  _graph.resize(index+1)\<close>. A failed assertion ends the program; the error carries the
  locus as it was at that moment.
\<close>

definition newGraphNode :: "SVLocus \<Rightarrow> (error \<times> SVLocus) + (NodeIndexType \<times> SVLocus)" where
  "newGraphNode g =
     (let index = size_locus g in
      if index < maxIndex
      then Inr (index, g\<lparr>graph := resize_graph (unat (index + 1)) (graph g)\<rparr>)
      else Inl (AssertionFailure, g))"

text \<open>\<^verbatim>\<open>getNode\<close> asserts \<^verbatim>\<open>nodePtr<_graph.size()\<close> before it indexes the vector.\<close>

definition getNode :: "SVLocus \<Rightarrow> NodeIndexType \<Rightarrow> (error \<times> SVLocus) + SVLocusNode" where
  "getNode g nodePtr =
     (if unat nodePtr < length (graph g) then Inr (graph g ! unat nodePtr)
      else Inl (AssertionFailure, g))"

definition setNode :: "NodeIndexType \<Rightarrow> SVLocusNode \<Rightarrow> SVLocus \<Rightarrow> SVLocus" where
  "setNode nodePtr n g = g\<lparr>graph := (graph g)[unat nodePtr := n]\<rparr>"

definition addNode ::
  "SVLocus \<Rightarrow> 32 word \<Rightarrow> 32 word \<Rightarrow> 32 word \<Rightarrow> (error \<times> SVLocus) + (NodeIndexType \<times> SVLocus)" where
  "addNode g tid' beginPos endPos =
     (case newGraphNode g of
        Inl e \<Rightarrow> Inl e
      | Inr (nodePtr, g1) \<Rightarrow>
          (case getNode g1 nodePtr of
             Inl e \<Rightarrow> Inl e
           | Inr node \<Rightarrow>
               (let node1 = node\<lparr>interval := (interval node)\<lparr>tid := tid'\<rparr>\<rparr>;
                    node2 = node1\<lparr>interval :=
                              (interval node1)\<lparr>range := set_range beginPos endPos (range (interval node1))\<rparr>\<rparr>;
                    node3 = node2\<lparr>count := count node2 + 1\<rparr>
                in Inr (nodePtr, notifyAdd nodePtr (setNode nodePtr node3 g1)))))"

text \<open>
  \<^verbatim>\<open>linkNodes\<close>: \<open>node1\<close> and \<open>node2\<close> are references into the vector, so the second
  insert works on the graph the first insert left (they are one node when the two indices
  are equal).
\<close>

definition linkNodes :: "SVLocus \<Rightarrow> NodeIndexType \<Rightarrow> NodeIndexType \<Rightarrow> (error \<times> SVLocus) + SVLocus" where
  "linkNodes g nodePtr1 nodePtr2 =
     (case getNode g nodePtr1 of
        Inl e \<Rightarrow> Inl e
      | Inr node1 \<Rightarrow>
          (case getNode g nodePtr2 of
             Inl e \<Rightarrow> Inl e
           | Inr node2 \<Rightarrow>
               if 0 \<noteq> edges_count (edges node1) nodePtr2 then Inl (AssertionFailure, g)
               else if 0 \<noteq> edges_count (edges node2) nodePtr1 then Inl (AssertionFailure, g)
               else
                 (let g1 = setNode nodePtr1
                             (node1\<lparr>edges := edges_insert (edges node1) (nodePtr2, SVLocusEdge_init 1)\<rparr>) g;
                      node2' = graph g1 ! unat nodePtr2
                  in Inr (setNode nodePtr2
                            (node2'\<lparr>edges := edges_insert (edges node2') (nodePtr1, SVLocusEdge_init 1)\<rparr>) g1))))"

text \<open>
  \<^verbatim>\<open>copyLocus\<close>: the loop body for one node of \<open>fromLocus\<close>, then the loop. The
  assertion \<^verbatim>\<open>&fromLocus != this\<close> compares addresses, which values do not have:
  \<open>sameInstance\<close> says whether the caller passed the locus itself.
\<close>

definition copyLocus_step ::
  "32 word \<Rightarrow> SVLocus \<Rightarrow> SVLocusNode \<Rightarrow> (error \<times> SVLocus) + SVLocus" where
  "copyLocus_step offset g fromNode =
     (case newGraphNode g of
        Inl e \<Rightarrow> Inl e
      | Inr (nodeIndex, g1) \<Rightarrow>
          (case getNode g1 nodeIndex of
             Inl e \<Rightarrow> Inl e
           | Inr _ \<Rightarrow> Inr (notifyAdd nodeIndex (setNode nodeIndex (SVLocusNode_copy fromNode offset) g1))))"

fun copyLocus_loop :: "32 word \<Rightarrow> SVLocus \<Rightarrow> SVLocusNode list \<Rightarrow> (error \<times> SVLocus) + SVLocus" where
  "copyLocus_loop offset g [] = Inr g"
| "copyLocus_loop offset g (fromNode # rest) =
     (case copyLocus_step offset g fromNode of
        Inl e \<Rightarrow> Inl e
      | Inr g1 \<Rightarrow> copyLocus_loop offset g1 rest)"

definition copyLocus :: "bool \<Rightarrow> SVLocus \<Rightarrow> SVLocus \<Rightarrow> (error \<times> SVLocus) + SVLocus" where
  "copyLocus sameInstance g fromLocus =
     (if sameInstance then Inl (AssertionFailure, g)
      else copyLocus_loop (size_locus g) g (graph fromLocus))"

text \<open>
  \<^verbatim>\<open>clear\<close>: \<^verbatim>\<open>for(NodeIndexType i(0);i<size();++i) notifyDelete(i); _graph.clear()\<close>.
\<close>

definition clear :: "SVLocus \<Rightarrow> SVLocus" where
  "clear g =
     (foldl (\<lambda>g' i. notifyDelete (of_nat i) g') g [0..<unat (size_locus g)])\<lparr>graph := []\<rparr>"

subsection \<open>Serialization\<close>

text \<open>
  The archive is Boost's (not part of this repository). It is modelled as the sequence
  of primitive values in the order in which \<^verbatim>\<open>ar & a & b\<close> writes them: a member
  after the one before it, a collection as its size followed by its items, a pair as its
  first and its second member. \<^verbatim>\<open>known_pos_range::serialize\<close> is modelled from the
  spec (begin, then end). Reading from an archive that ends early, or a negative size,
  raises Boost's archive exception.
\<close>

type_synonym archive = "int list"

definition save_word :: "'a::len word \<Rightarrow> archive" where
  "save_word w = [uint w]"

fun load_word :: "archive \<Rightarrow> ('a::len word \<times> archive) option" where
  "load_word [] = None"
| "load_word (t # ar) = Some (word_of_int t, ar)"

definition save_size :: "nat \<Rightarrow> archive" where
  "save_size n = [int n]"

fun load_size :: "archive \<Rightarrow> (nat \<times> archive) option" where
  "load_size [] = None"
| "load_size (t # ar) = (if t < 0 then None else Some (nat t, ar))"

definition save_items :: "('a \<Rightarrow> archive) \<Rightarrow> 'a list \<Rightarrow> archive" where
  "save_items f xs = concat (map f xs)"

fun load_items :: "(archive \<Rightarrow> ('a \<times> archive) option) \<Rightarrow> nat \<Rightarrow> archive \<Rightarrow> ('a list \<times> archive) option" where
  "load_items f 0 ar = Some ([], ar)"
| "load_items f (Suc n) ar =
     do { (x, ar1) \<leftarrow> f ar; (xs, ar2) \<leftarrow> load_items f n ar1; Some (x # xs, ar2) }"

text \<open>\<^verbatim>\<open>SVLocusEdge::serialize\<close>: \<^verbatim>\<open>ar & count\<close>.\<close>

definition save_SVLocusEdge :: "SVLocusEdge \<Rightarrow> archive" where
  "save_SVLocusEdge e = save_word (edge_count e)"

definition load_SVLocusEdge :: "archive \<Rightarrow> (SVLocusEdge \<times> archive) option" where
  "load_SVLocusEdge ar = do { (c, ar1) \<leftarrow> load_word ar; Some (\<lparr>edge_count = c\<rparr>, ar1) }"

definition save_known_pos_range :: "known_pos_range \<Rightarrow> archive" where
  "save_known_pos_range r = save_word (begin_pos r) @ save_word (end_pos r)"

definition load_known_pos_range :: "archive \<Rightarrow> (known_pos_range \<times> archive) option" where
  "load_known_pos_range ar =
     do { (b, ar1) \<leftarrow> load_word ar; (e, ar2) \<leftarrow> load_word ar1;
          Some (\<lparr>begin_pos = b, end_pos = e\<rparr>, ar2) }"

text \<open>\<^verbatim>\<open>GenomeInterval::serialize\<close>: \<^verbatim>\<open>ar & tid & range\<close>.\<close>

definition save_GenomeInterval :: "GenomeInterval \<Rightarrow> archive" where
  "save_GenomeInterval gi = save_word (tid gi) @ save_known_pos_range (range gi)"

definition load_GenomeInterval :: "archive \<Rightarrow> (GenomeInterval \<times> archive) option" where
  "load_GenomeInterval ar =
     do { (t, ar1) \<leftarrow> load_word ar; (r, ar2) \<leftarrow> load_known_pos_range ar1;
          Some (\<lparr>tid = t, range = r\<rparr>, ar2) }"

text \<open>
  A \<^verbatim>\<open>std::map\<close> is written as its size and its pairs in key order, and read by
  inserting the pairs one after the other into the emptied map.
\<close>

definition save_edge_pair :: "NodeIndexType \<times> SVLocusEdge \<Rightarrow> archive" where
  "save_edge_pair kv = save_word (fst kv) @ save_SVLocusEdge (snd kv)"

definition load_edge_pair :: "archive \<Rightarrow> ((NodeIndexType \<times> SVLocusEdge) \<times> archive) option" where
  "load_edge_pair ar =
     do { (k, ar1) \<leftarrow> load_word ar; (e, ar2) \<leftarrow> load_SVLocusEdge ar1; Some ((k, e), ar2) }"

definition save_edges :: "edges_type \<Rightarrow> archive" where
  "save_edges es = save_size (length es) @ save_items save_edge_pair es"

definition load_edges :: "archive \<Rightarrow> (edges_type \<times> archive) option" where
  "load_edges ar =
     do { (n, ar1) \<leftarrow> load_size ar; (kvs, ar2) \<leftarrow> load_items load_edge_pair n ar1;
          Some (foldl edges_insert [] kvs, ar2) }"

text \<open>\<^verbatim>\<open>SVLocusNode::serialize\<close>: \<^verbatim>\<open>ar & count & interval & edges\<close>.\<close>

definition save_SVLocusNode :: "SVLocusNode \<Rightarrow> archive" where
  "save_SVLocusNode n =
     save_word (count n) @ save_GenomeInterval (interval n) @ save_edges (edges n)"

definition load_SVLocusNode :: "archive \<Rightarrow> (SVLocusNode \<times> archive) option" where
  "load_SVLocusNode ar =
     do { (c, ar1) \<leftarrow> load_word ar; (gi, ar2) \<leftarrow> load_GenomeInterval ar1;
          (es, ar3) \<leftarrow> load_edges ar2;
          Some (\<lparr>count = c, interval = gi, edges = es\<rparr>, ar3) }"

definition save_graph :: "SVLocusNode list \<Rightarrow> archive" where
  "save_graph ns = save_size (length ns) @ save_items save_SVLocusNode ns"

definition load_graph :: "archive \<Rightarrow> (SVLocusNode list \<times> archive) option" where
  "load_graph ar = do { (n, ar1) \<leftarrow> load_size ar; load_items load_SVLocusNode n ar1 }"

text \<open>
  \<^verbatim>\<open>SVLocus::save\<close> is \<^verbatim>\<open>ar << _graph\<close>: it appends the graph to the archive and
  nothing else. \<^verbatim>\<open>SVLocus::load\<close> is \<^verbatim>\<open>clear(); ar >> _graph\<close>: it reads the graph
  from the front of the archive and returns what is left of it.
\<close>

definition save :: "SVLocus \<Rightarrow> archive \<Rightarrow> archive" where
  "save g ar = ar @ save_graph (graph g)"

definition load :: "archive \<Rightarrow> SVLocus \<Rightarrow> (error \<times> SVLocus) + (SVLocus \<times> archive)" where
  "load ar g =
     (let g1 = clear g in
      case load_graph ar of
        None \<Rightarrow> Inl (ArchiveException, g1)
      | Some (ns, ar1) \<Rightarrow> Inr (g1\<lparr>graph := ns\<rparr>, ar1))"

subsection \<open>Example loci\<close>

definition locus_two :: SVLocus where
  "locus_two =
     \<lparr>graph = [\<lparr>count = 1, interval = \<lparr>tid = 1, range = \<lparr>begin_pos = 10, end_pos = 20\<rparr>\<rparr>, edges = []\<rparr>,
               \<lparr>count = 1, interval = \<lparr>tid = 1, range = \<lparr>begin_pos = 30, end_pos = 40\<rparr>\<rparr>, edges = []\<rparr>],
      index = 7, notified = [(True, (7, 0)), (True, (7, 1))]\<rparr>"

definition locus_linked :: SVLocus where
  "locus_linked =
     \<lparr>graph = [\<lparr>count = 1, interval = \<lparr>tid = 1, range = \<lparr>begin_pos = 10, end_pos = 20\<rparr>\<rparr>,
                edges = [(1, \<lparr>edge_count = 1\<rparr>)]\<rparr>,
               \<lparr>count = 1, interval = \<lparr>tid = 1, range = \<lparr>begin_pos = 30, end_pos = 40\<rparr>\<rparr>,
                edges = [(0, \<lparr>edge_count = 1\<rparr>)]\<rparr>],
      index = 7, notified = [(True, (7, 0)), (True, (7, 1))]\<rparr>"

definition locus_one :: SVLocus where
  "locus_one =
     \<lparr>graph = [\<lparr>count = 1, interval = \<lparr>tid = 2, range = \<lparr>begin_pos = 5, end_pos = 9\<rparr>\<rparr>, edges = []\<rparr>],
      index = 3, notified = [(True, (3, 0))]\<rparr>"

section \<open>The assembler's configuration (SVLocusAssembler)\<close>

text \<open>
  The members the constructor sets, named without the underscore that ends each of them
  in the source (\<^verbatim>\<open>wordLength_\<close>, ...). \<^verbatim>\<open>maxError_\<close> is a \<^verbatim>\<open>double\<close>
  initialised from the literal \<^verbatim>\<open>0.2\<close>; the field holds the value of the literal.
\<close>

record SVLocusAssembler =
  wordLength :: "32 word"
  maxWordLength :: "32 word"
  minContigLength :: "32 word"
  minCoverage :: "32 word"
  maxError :: real
  minSeedReads :: "32 word"
  maxAssemblyIterations :: "32 word"

definition SVLocusAssembler_init :: SVLocusAssembler where
  "SVLocusAssembler_init =
     \<lparr>wordLength = 37, maxWordLength = 65, minContigLength = 15,
      minCoverage = 1, maxError = 0.2, minSeedReads = 2,
      maxAssemblyIterations = 50\<rparr>"

section \<open>The jump aligner (GlobalJumpAligner)\<close>

subsection \<open>Data types\<close>

text \<open>
  \<^verbatim>\<open>ScoreType\<close> is a template parameter; the model instantiates it with \<^verbatim>\<open>int\<close>, a
  signed integer of 32 bits. A score is an integer here, and the sum of two scores is the
  sum of two integers (C++ leaves a signed sum outside the range undefined). A product of
  an index and a score is different: \<^verbatim>\<open>queryIndex * _scores.mismatch\<close> multiplies an
  \<^verbatim>\<open>unsigned\<close> with a score, and \<^verbatim>\<open>sval.match + (querySize-queryIndex) * _scores.mismatch\<close>
  a \<^verbatim>\<open>size_t\<close> with a score, so the score is converted to the unsigned type, the
  arithmetic is done modulo a power of two, and the result is converted back when it is
  stored in a \<^verbatim>\<open>ScoreType\<close>. \<open>ScoreType_of\<close> is that conversion: the value modulo
  \<open>2 ^ 32\<close>, read as a two's complement number.
\<close>

definition ScoreType_of :: "int \<Rightarrow> int" where
  "ScoreType_of x = (x + 2 ^ 31) mod 2 ^ 32 - 2 ^ 31"

text \<open>
  \<^verbatim>\<open>AlignmentScores\<close> is the member \<^verbatim>\<open>_scores\<close> with the fields \<^verbatim>\<open>match\<close>,
  \<^verbatim>\<open>mismatch\<close>, \<^verbatim>\<open>open\<close> and \<^verbatim>\<open>extend\<close> that \<^verbatim>\<open>align\<close> reads.
\<close>

record AlignmentScores =
  s_match :: int
  s_mismatch :: int
  s_open :: int
  s_extend :: int

text \<open>
  \<^verbatim>\<open>ScoreVal\<close>: one cell of a score vector, a score for each state. The struct is
  declared with the class (GlobalJumpAligner.hh); the fields are the four that
  \<^verbatim>\<open>align\<close> reads and writes.
\<close>

record ScoreVal =
  match :: int
  del :: int
  ins :: int
  jump :: int

text \<open>
  \<^verbatim>\<open>AlignState::index_t\<close> (declared outside the file), with the four states that
  \<^verbatim>\<open>align\<close> names. The pointer that \<^verbatim>\<open>max3\<close> and \<^verbatim>\<open>max4\<close> return is cast to it,
  so the states are numbered in the order of the arguments: match, delete, insert, jump.
\<close>

datatype index_t = AlignState_MATCH | AlignState_DELETE | AlignState_INSERT | AlignState_JUMP

text \<open>
  \<^verbatim>\<open>PtrVal\<close> (declared with the class): one cell of a pointer matrix, the predecessor
  state for each state; \<^verbatim>\<open>get(state)\<close> reads the field of that state.
\<close>

record PtrVal =
  p_match :: index_t
  p_del :: index_t
  p_ins :: index_t
  p_jump :: index_t

definition PtrVal_get :: "PtrVal \<Rightarrow> index_t \<Rightarrow> index_t" where
  "PtrVal_get p s =
     (case s of AlignState_MATCH \<Rightarrow> p_match p | AlignState_DELETE \<Rightarrow> p_del p
      | AlignState_INSERT \<Rightarrow> p_ins p | AlignState_JUMP \<Rightarrow> p_jump p)"

text \<open>A pointer matrix, read as \<^verbatim>\<open>val(queryIndex, refIndex)\<close>.\<close>

type_synonym PtrMat = "nat \<Rightarrow> nat \<Rightarrow> PtrVal"

definition PtrMat_set :: "PtrMat \<Rightarrow> nat \<Rightarrow> nat \<Rightarrow> PtrVal \<Rightarrow> PtrMat" where
  "PtrMat_set m q r v = m(q := (m q)(r := v))"

text \<open>
  Modelled from the spec: \<^verbatim>\<open>ALIGNPATH::align_t\<close> and \<^verbatim>\<open>ALIGNPATH::path_segment\<close>
  (declared outside the file). A segment is \<open>{type, length}\<close> with a type ``one of
  MATCH, INSERT, DELETE, SOFT_CLIP''; \<^verbatim>\<open>NONE\<close> is the type that \<^verbatim>\<open>align\<close> compares a
  segment with before it pushes it, the type of a new segment, whose length is 0.
\<close>

datatype align_t = ALIGNPATH_NONE | ALIGNPATH_MATCH | ALIGNPATH_INSERT | ALIGNPATH_DELETE
  | ALIGNPATH_SOFT_CLIP

record path_segment =
  ps_type :: align_t
  ps_length :: nat

definition path_segment_init :: path_segment where
  "path_segment_init = \<lparr>ps_type = ALIGNPATH_NONE, ps_length = 0\<rparr>"

text \<open>The struct \<^verbatim>\<open>BackTrace\<close> and its constructor.\<close>

record BackTrace =
  bt_max :: int
  bt_state :: index_t
  queryStart :: nat
  refStart :: nat
  isInit :: bool

definition BackTrace_init :: BackTrace where
  "BackTrace_init =
     \<lparr>bt_max = 0, bt_state = AlignState_MATCH, queryStart = 0, refStart = 0, isInit = False\<rparr>"

text \<open>
  The members of the aligner that \<^verbatim>\<open>align\<close> names. It fills \<^verbatim>\<open>_ptrMat1\<close> and
  \<^verbatim>\<open>_ptrMat2\<close>; its backtrace reads \<^verbatim>\<open>_ptrMat\<close> and \<^verbatim>\<open>refSize\<close>, which it neither
  declares nor writes, so they are what the aligner holds when \<^verbatim>\<open>align\<close> is called.
\<close>

record GlobalJumpAligner =
  scores :: AlignmentScores
  jumpScore :: int
  score1 :: "ScoreVal list"
  score2 :: "ScoreVal list"
  ptrMat1 :: PtrMat
  ptrMat2 :: PtrMat
  ptrMat :: PtrMat
  refSize :: nat

record AlignmentResult =
  score :: int
  alignStart :: nat
  apath :: "path_segment list"

subsection \<open>Helpers declared outside the file\<close>

text \<open>
  Modelled from the spec: \<^verbatim>\<open>AlignerUtil::max3\<close> and \<^verbatim>\<open>max4\<close> (AlignerUtil.hh) are the
  ``max-of-3/max-of-4 comparisons'' that ``choose the best of entering from
  MATCH/DELETE/INSERT(/JUMP where applicable)'': the largest value goes to the first
  argument of the call and the number of its position is returned. A later value takes
  over only when it is strictly greater.
\<close>

definition max3 :: "int \<Rightarrow> int \<Rightarrow> int \<Rightarrow> int \<times> index_t" where
  "max3 v0 v1 v2 =
     (let (m, p) = (v0, AlignState_MATCH);
          (m, p) = (if v1 > m then (v1, AlignState_DELETE) else (m, p));
          (m, p) = (if v2 > m then (v2, AlignState_INSERT) else (m, p))
      in (m, p))"

definition max4 :: "int \<Rightarrow> int \<Rightarrow> int \<Rightarrow> int \<Rightarrow> int \<times> index_t" where
  "max4 v0 v1 v2 v3 =
     (let (m, p) = max3 v0 v1 v2;
          (m, p) = (if v3 > m then (v3, AlignState_JUMP) else (m, p))
      in (m, p))"

text \<open>
  Modelled from the spec: \<^verbatim>\<open>AlignerUtil::updatePath\<close> starts a new segment when the
  type changes (``coalescing consecutive same-type segments''): the segment in hand is
  pushed unless it is empty-typed, and the new one starts at length 0.
\<close>

definition updatePath ::
  "path_segment list \<times> path_segment \<Rightarrow> align_t \<Rightarrow> path_segment list \<times> path_segment" where
  "updatePath pp atype =
     (case pp of (path, ps) \<Rightarrow>
        if ps_type ps = atype then (path, ps)
        else ((if ps_type ps \<noteq> ALIGNPATH_NONE then path @ [ps] else path),
              \<lparr>ps_type = atype, ps_length = 0\<rparr>))"

text \<open>
  \<^verbatim>\<open>std::vector::resize\<close> of a score vector. \<^verbatim>\<open>ScoreVal\<close> has no constructor in
  reach of this file; a new element is value-initialised.
\<close>

definition ScoreVal_init :: ScoreVal where
  "ScoreVal_init = \<lparr>match = 0, del = 0, ins = 0, jump = 0\<rparr>"

definition resize_scores :: "nat \<Rightarrow> ScoreVal list \<Rightarrow> ScoreVal list" where
  "resize_scores n sv = take n sv @ replicate (n - length sv) ScoreVal_init"

subsection \<open>The two passes\<close>

definition badVal :: int where
  "badVal = - 10000"

text \<open>
  The loop that starts a pass: \<^verbatim>\<open>for (queryIndex = 0; queryIndex <= querySize;
  queryIndex++)\<close> sets every cell of \<^verbatim>\<open>*thisSV\<close>. The product is one of an
  \<^verbatim>\<open>unsigned\<close> and a score, stored in a score.
\<close>

definition initScores :: "AlignmentScores \<Rightarrow> nat \<Rightarrow> ScoreVal list \<Rightarrow> ScoreVal list" where
  "initScores sc querySize thisSV =
     foldl (\<lambda>sv queryIndex.
              sv[queryIndex := \<lparr>match = ScoreType_of (int queryIndex * s_mismatch sc),
                                del = badVal, ins = badVal, jump = badVal\<rparr>])
       thisSV [0..<Suc querySize]"

text \<open>
  The body of the inner loop of pass 1. \<open>svalM\<close> is \<^verbatim>\<open>(*prevSV)[queryIndex]\<close>,
  \<open>svalD\<close> is \<^verbatim>\<open>(*prevSV)[queryIndex+1]\<close>, \<open>svalI\<close> is \<^verbatim>\<open>(*thisSV)[queryIndex]\<close>;
  \<open>headScore\<close> and \<open>headPtr\<close> are the cells that the body updates in place. The last
  line is the second \<^verbatim>\<open>headScore.del += _scores.extend\<close>, in the jump block.
\<close>

definition updateCell1 ::
  "AlignmentScores \<Rightarrow> int \<Rightarrow> bool \<Rightarrow> ScoreVal \<Rightarrow> ScoreVal \<Rightarrow> ScoreVal \<Rightarrow>
   ScoreVal \<times> PtrVal \<Rightarrow> ScoreVal \<times> PtrVal" where
  "updateCell1 sc js isEq svalM svalD svalI head =
     (let (headScore, headPtr) = head;
          (m, p) = max3 (match svalM) (del svalM) (ins svalM);
          headScore = headScore\<lparr>match := m\<rparr>;
          headPtr = headPtr\<lparr>p_match := p\<rparr>;
          headScore = headScore\<lparr>match := match headScore + (if isEq then s_match sc else s_mismatch sc)\<rparr>;
          (m, p) = max3 (match svalD + s_open sc) (del svalD) (ins svalD);
          headScore = headScore\<lparr>del := m\<rparr>;
          headPtr = headPtr\<lparr>p_del := p\<rparr>;
          headScore = headScore\<lparr>del := del headScore + s_extend sc\<rparr>;
          (m, p) = max3 (match svalI + s_open sc) (del svalI) (ins svalI);
          headScore = headScore\<lparr>ins := m\<rparr>;
          headPtr = headPtr\<lparr>p_ins := p\<rparr>;
          headScore = headScore\<lparr>ins := ins headScore + s_extend sc\<rparr>;
          (m, p) = max4 (match svalD + js) badVal (ins svalD + js) (jump svalD);
          headScore = headScore\<lparr>jump := m\<rparr>;
          headPtr = headPtr\<lparr>p_jump := p\<rparr>;
          headScore = headScore\<lparr>del := del headScore + s_extend sc\<rparr>
      in (headScore, headPtr))"

text \<open>The body of the inner loop of pass 2.\<close>

definition updateCell2 ::
  "AlignmentScores \<Rightarrow> bool \<Rightarrow> ScoreVal \<Rightarrow> ScoreVal \<Rightarrow> ScoreVal \<Rightarrow>
   ScoreVal \<times> PtrVal \<Rightarrow> ScoreVal \<times> PtrVal" where
  "updateCell2 sc isEq svalM svalD svalI head =
     (let (headScore, headPtr) = head;
          (m, p) = max4 (match svalM) (del svalM) (ins svalM) (jump svalM);
          headScore = headScore\<lparr>match := m\<rparr>;
          headPtr = headPtr\<lparr>p_match := p\<rparr>;
          headScore = headScore\<lparr>match := match headScore + (if isEq then s_match sc else s_mismatch sc)\<rparr>;
          (m, p) = max3 (match svalD + s_open sc) (del svalD) (ins svalD);
          headScore = headScore\<lparr>del := m\<rparr>;
          headPtr = headPtr\<lparr>p_del := p\<rparr>;
          headScore = headScore\<lparr>del := del headScore + s_extend sc\<rparr>;
          (m, p) = max4 (match svalI + s_open sc) (del svalI) (ins svalI) (jump svalI);
          headScore = headScore\<lparr>ins := m\<rparr>;
          headPtr = headPtr\<lparr>p_ins := p\<rparr>;
          headScore = headScore\<lparr>ins := ins headScore + s_extend sc\<rparr>;
          headPtr = headPtr\<lparr>p_jump := AlignState_JUMP\<rparr>;
          headScore = headScore\<lparr>jump := jump svalD\<rparr>
      in (headScore, headPtr))"

text \<open>
  The inner loop over the query, for one symbol of the reference: \<open>cell\<close> is the loop
  body with the comparison of the two symbols still to be made. Both vectors were resized
  to \<open>querySize + 1\<close> cells, so every index the loop uses is in range.
\<close>

fun queryLoop ::
  "(bool \<Rightarrow> ScoreVal \<Rightarrow> ScoreVal \<Rightarrow> ScoreVal \<Rightarrow> ScoreVal \<times> PtrVal \<Rightarrow> ScoreVal \<times> PtrVal) \<Rightarrow>
   'a \<Rightarrow> nat \<Rightarrow> ScoreVal list \<Rightarrow> 'a list \<Rightarrow> nat \<Rightarrow>
   ScoreVal list \<times> PtrMat \<Rightarrow> ScoreVal list \<times> PtrMat" where
  "queryLoop cell refSym refIndex prevSV [] queryIndex (thisSV, pm) = (thisSV, pm)"
| "queryLoop cell refSym refIndex prevSV (querySym # rest) queryIndex (thisSV, pm) =
     (let (headScore, headPtr) =
            cell (querySym = refSym) (prevSV ! queryIndex) (prevSV ! Suc queryIndex)
              (thisSV ! queryIndex)
              (thisSV ! Suc queryIndex, pm (Suc queryIndex) (Suc refIndex))
      in queryLoop cell refSym refIndex prevSV rest (Suc queryIndex)
           (thisSV[Suc queryIndex := headScore],
            PtrMat_set pm (Suc queryIndex) (Suc refIndex) headPtr))"

text \<open>
  The update of the backtrace start: \<^verbatim>\<open>if(bt.isInit && (thisMax<=bt.max)) continue;\<close>
  and the four assignments.
\<close>

definition updateBackTrace :: "int \<Rightarrow> nat \<Rightarrow> nat \<Rightarrow> BackTrace \<Rightarrow> BackTrace" where
  "updateBackTrace thisMax newRefStart newQueryStart bt =
     (if isInit bt \<and> thisMax \<le> bt_max bt then bt
      else bt\<lparr>bt_max := thisMax, refStart := newRefStart, queryStart := newQueryStart,
              isInit := True\<rparr>)"

text \<open>
  The outer loop over a reference, and its body for one symbol of the reference. The
  state is \<^verbatim>\<open>*thisSV\<close>, \<^verbatim>\<open>*prevSV\<close>, the pointer matrix of the pass and \<open>bt\<close>;
  \<^verbatim>\<open>std::swap(thisSV,prevSV)\<close> exchanges the two vectors.
\<close>

definition refStep ::
  "(bool \<Rightarrow> ScoreVal \<Rightarrow> ScoreVal \<Rightarrow> ScoreVal \<Rightarrow> ScoreVal \<times> PtrVal \<Rightarrow> ScoreVal \<times> PtrVal) \<Rightarrow>
   'a list \<Rightarrow> 'a \<Rightarrow> nat \<Rightarrow>
   ScoreVal list \<times> ScoreVal list \<times> PtrMat \<times> BackTrace \<Rightarrow>
   ScoreVal list \<times> ScoreVal list \<times> PtrMat \<times> BackTrace" where
  "refStep cell query refSym refIndex st =
     (case st of (thisSV, prevSV, pm, bt) \<Rightarrow>
        (let (thisSV, prevSV) = (prevSV, thisSV);
             thisSV = thisSV[0 := (thisSV ! 0)\<lparr>match := 0, del := badVal, ins := badVal\<rparr>];
             (thisSV, pm) = queryLoop cell refSym refIndex prevSV query 0 (thisSV, pm);
             bt = updateBackTrace (match (thisSV ! length query)) (Suc refIndex) (length query) bt
         in (thisSV, prevSV, pm, bt)))"

fun refLoop ::
  "(bool \<Rightarrow> ScoreVal \<Rightarrow> ScoreVal \<Rightarrow> ScoreVal \<Rightarrow> ScoreVal \<times> PtrVal \<Rightarrow> ScoreVal \<times> PtrVal) \<Rightarrow>
   'a list \<Rightarrow> 'a list \<Rightarrow> nat \<Rightarrow>
   ScoreVal list \<times> ScoreVal list \<times> PtrMat \<times> BackTrace \<Rightarrow>
   ScoreVal list \<times> ScoreVal list \<times> PtrMat \<times> BackTrace" where
  "refLoop cell query [] refIndex st = st"
| "refLoop cell query (refSym # rest) refIndex st =
     refLoop cell query rest (Suc refIndex) (refStep cell query refSym refIndex st)"

text \<open>
  Both passes, from the resize of the scratch vectors to the end of pass 2. The result is
  \<^verbatim>\<open>*thisSV\<close>, the two pointer matrices as the passes filled them, and \<open>bt\<close>.
\<close>

definition dpPasses ::
  "GlobalJumpAligner \<Rightarrow> 'a list \<Rightarrow> 'a list \<Rightarrow> 'a list \<Rightarrow> ScoreVal list \<times> PtrMat \<times> PtrMat \<times> BackTrace" where
  "dpPasses al query ref1 ref2 =
     (let querySize = length query;
          thisSV = resize_scores (querySize + 1) (score1 al);
          prevSV = resize_scores (querySize + 1) (score2 al);
          thisSV = initScores (scores al) querySize thisSV;
          bt = BackTrace_init;
          (thisSV, prevSV, pm1, bt) =
             refLoop (updateCell1 (scores al) (jumpScore al)) query ref1 0
               (thisSV, prevSV, ptrMat1 al, bt);
          thisSV = initScores (scores al) querySize thisSV;
          (thisSV, prevSV, pm2, bt) =
             refLoop (updateCell2 (scores al)) query ref2 0 (thisSV, prevSV, ptrMat2 al, bt)
      in (thisSV, pm1, pm2, bt))"

text \<open>
  The loop after the passes, where the query falls off the end of the reference at
  \<open>queryIndex\<close>. \<^verbatim>\<open>thisMax\<close> is a sum in \<^verbatim>\<open>size_t\<close>, stored in a score; \<open>rSize\<close> is
  \<^verbatim>\<open>refSize\<close>.
\<close>

definition fallOff :: "AlignmentScores \<Rightarrow> nat \<Rightarrow> nat \<Rightarrow> ScoreVal list \<Rightarrow> BackTrace \<Rightarrow> BackTrace" where
  "fallOff sc querySize rSize thisSV bt =
     foldl (\<lambda>bt queryIndex.
              updateBackTrace
                (ScoreType_of
                   (match (thisSV ! queryIndex) + int (querySize - queryIndex) * s_mismatch sc))
                rSize queryIndex bt)
       bt [0..<Suc querySize]"

subsection \<open>The backtrace\<close>

text \<open>
  The \<^verbatim>\<open>while\<close> loop of the traceback. A state other than match, delete and insert
  reaches \<^verbatim>\<open>assert(! "Unknown align state")\<close>.
\<close>

function backtraceLoop ::
  "PtrMat \<Rightarrow> BackTrace \<Rightarrow> path_segment list \<times> path_segment \<Rightarrow>
   error + (BackTrace \<times> path_segment list \<times> path_segment)" where
  "backtraceLoop pm bt pp =
     (if queryStart bt > 0 \<and> refStart bt > 0 then
        (let nextMatrix = PtrVal_get (pm (queryStart bt) (refStart bt)) (bt_state bt) in
         if bt_state bt = AlignState_MATCH then
           (case updatePath pp ALIGNPATH_MATCH of (path, ps) \<Rightarrow>
              backtraceLoop pm
                (bt\<lparr>queryStart := queryStart bt - 1, refStart := refStart bt - 1,
                    bt_state := nextMatrix\<rparr>)
                (path, ps\<lparr>ps_length := ps_length ps + 1\<rparr>))
         else if bt_state bt = AlignState_DELETE then
           (case updatePath pp ALIGNPATH_DELETE of (path, ps) \<Rightarrow>
              backtraceLoop pm
                (bt\<lparr>refStart := refStart bt - 1, bt_state := nextMatrix\<rparr>)
                (path, ps\<lparr>ps_length := ps_length ps + 1\<rparr>))
         else if bt_state bt = AlignState_INSERT then
           (case updatePath pp ALIGNPATH_INSERT of (path, ps) \<Rightarrow>
              backtraceLoop pm
                (bt\<lparr>queryStart := queryStart bt - 1, bt_state := nextMatrix\<rparr>)
                (path, ps\<lparr>ps_length := ps_length ps + 1\<rparr>))
         else Inl AssertionFailure)
      else Inr (bt, pp))"
  by pat_completeness auto
termination
  by (relation "measure (\<lambda>(pm, bt, pp). queryStart bt + refStart bt)") auto

declare backtraceLoop.simps [simp del]

subsection \<open>align\<close>

definition align ::
  "GlobalJumpAligner \<Rightarrow> 'a list \<Rightarrow> 'a list \<Rightarrow> 'a list \<Rightarrow> error + AlignmentResult" where
  "align al query ref1 ref2 =
     (let querySize = length query; ref1Size = length ref1; ref2Size = length ref2 in
      if querySize = 0 then Inl AssertionFailure
      else if ref1Size = 0 then Inl AssertionFailure
      else if ref2Size = 0 then Inl AssertionFailure
      else
        (let (thisSV, pm1, pm2, bt) = dpPasses al query ref1 ref2;
             bt = fallOff (scores al) querySize (refSize al) thisSV bt
         in
           if \<not> isInit bt then Inl AssertionFailure
           else if \<not> refStart bt \<le> refSize al then Inl AssertionFailure
           else if \<not> queryStart bt \<le> querySize then Inl AssertionFailure
           else
             (let result_score = bt_max bt;
                  ps = path_segment_init;
                  ps = (if queryStart bt < querySize
                        then ps\<lparr>ps_type := ALIGNPATH_SOFT_CLIP,
                                ps_length := querySize - queryStart bt\<rparr>
                        else ps)
              in case backtraceLoop (ptrMat al) bt ([], ps) of
                   Inl e \<Rightarrow> Inl e
                 | Inr (bt, path, ps) \<Rightarrow>
                     (let path = (if ps_type ps \<noteq> ALIGNPATH_NONE then path @ [ps] else path);
                          path = (if queryStart bt \<noteq> 0
                                  then path @ [ps\<lparr>ps_type := ALIGNPATH_SOFT_CLIP,
                                                  ps_length := queryStart bt\<rparr>]
                                  else path)
                      in Inr \<lparr>score = result_score, alignStart = refStart bt,
                              apath = rev path\<rparr>))))"

subsection \<open>Example aligners\<close>

text \<open>Pointer cells as a newly sized matrix holds them, every pointer 0.\<close>

definition PtrMat_init :: PtrMat where
  "PtrMat_init =
     (\<lambda>q r. \<lparr>p_match = AlignState_MATCH, p_del = AlignState_MATCH,
              p_ins = AlignState_MATCH, p_jump = AlignState_MATCH\<rparr>)"

definition scores_plain :: AlignmentScores where
  "scores_plain = \<lparr>s_match = 1, s_mismatch = - 4, s_open = - 5, s_extend = - 1\<rparr>"

definition scores_steep :: AlignmentScores where
  "scores_steep = \<lparr>s_match = 1, s_mismatch = - 10001, s_open = - 10000, s_extend = - 1\<rparr>"

definition aligner_new :: "AlignmentScores \<Rightarrow> int \<Rightarrow> PtrMat \<Rightarrow> nat \<Rightarrow> GlobalJumpAligner" where
  "aligner_new sc js pm rs =
     \<lparr>scores = sc, jumpScore = js, score1 = [], score2 = [],
      ptrMat1 = PtrMat_init, ptrMat2 = PtrMat_init, ptrMat = pm, refSize = rs\<rparr>"

text \<open>
  Two scoring schemes outside the usual ones: a mismatch penalty of \<open>2 ^ 30\<close>, whose
  product with three query symbols leaves the range of a score, and a mismatch that earns
  more than a match.
\<close>

definition scores_huge :: AlignmentScores where
  "scores_huge = \<lparr>s_match = 1, s_mismatch = - (2 ^ 30), s_open = 0, s_extend = - 1\<rparr>"

definition scores_inverted :: AlignmentScores where
  "scores_inverted = \<lparr>s_match = 1, s_mismatch = 2, s_open = - 5, s_extend = - 1\<rparr>"

section \<open>Notions used in the proofs about the aligner\<close>

text \<open>
  The scoring schemes the properties below are stated for: a match earns at least 0 and
  more than a mismatch, opening a gap costs at least 0 and extending it costs more than
  0.
\<close>

definition scores_ok :: "AlignmentScores \<Rightarrow> bool" where
  "scores_ok sc = (0 \<le> s_match sc \<and> s_mismatch sc < s_match sc \<and> s_open sc \<le> 0 \<and> s_extend sc < 0)"

text \<open>
  The scores fit a query of \<open>n\<close> symbols: with \<open>b\<close> the largest magnitude among the four
  scores and the jump score, \<open>(n + 3) * b + 10000\<close> is below \<open>2 ^ 31\<close>. Under this bound
  no product of an index and a score wraps, and no sum of two scores that the passes form
  leaves the range of a score (\<open>dpPasses_sums_in_range\<close> below).
\<close>

definition score_bound :: "AlignmentScores \<Rightarrow> int \<Rightarrow> int" where
  "score_bound sc js =
     max (max (abs (s_match sc)) (abs (s_mismatch sc)))
       (max (max (abs (s_open sc)) (abs (s_extend sc))) (abs js))"

definition scores_in_range :: "AlignmentScores \<Rightarrow> int \<Rightarrow> nat \<Rightarrow> bool" where
  "scores_in_range sc js n = ((int n + 3) * score_bound sc js + 10000 < 2 ^ 31)"

text \<open>
  The range of a score, and the sums of two scores that the body of the inner loop forms
  for one cell, in pass 1 and in pass 2, in the order of the source. The arguments are
  those of \<open>updateCell1\<close> and \<open>updateCell2\<close>.
\<close>

definition in_range :: "int \<Rightarrow> bool" where
  "in_range x = (- (2 ^ 31) \<le> x \<and> x < 2 ^ 31)"

definition updateCell1_sums ::
  "AlignmentScores \<Rightarrow> int \<Rightarrow> bool \<Rightarrow> ScoreVal \<Rightarrow> ScoreVal \<Rightarrow> ScoreVal \<Rightarrow> int list" where
  "updateCell1_sums sc js isEq svalM svalD svalI =
     [fst (max3 (match svalM) (del svalM) (ins svalM)) + (if isEq then s_match sc else s_mismatch sc),
      match svalD + s_open sc,
      fst (max3 (match svalD + s_open sc) (del svalD) (ins svalD)) + s_extend sc,
      match svalI + s_open sc,
      fst (max3 (match svalI + s_open sc) (del svalI) (ins svalI)) + s_extend sc,
      match svalD + js,
      ins svalD + js,
      fst (max3 (match svalD + s_open sc) (del svalD) (ins svalD)) + s_extend sc + s_extend sc]"

definition updateCell2_sums ::
  "AlignmentScores \<Rightarrow> bool \<Rightarrow> ScoreVal \<Rightarrow> ScoreVal \<Rightarrow> ScoreVal \<Rightarrow> int list" where
  "updateCell2_sums sc isEq svalM svalD svalI =
     [fst (max4 (match svalM) (del svalM) (ins svalM) (jump svalM))
        + (if isEq then s_match sc else s_mismatch sc),
      match svalD + s_open sc,
      fst (max3 (match svalD + s_open sc) (del svalD) (ins svalD)) + s_extend sc,
      match svalI + s_open sc,
      fst (max4 (match svalI + s_open sc) (del svalI) (ins svalI) (jump svalI)) + s_extend sc]"

text \<open>
  All the sums of a pass: for every symbol of the reference and every symbol of the query,
  the sums of the cell, read off the row before and the row that \<open>refStep\<close> leaves. (A
  cell is not written again after its update, so the row holds what the update read.)
\<close>

fun refLoop_sums ::
  "(bool \<Rightarrow> ScoreVal \<Rightarrow> ScoreVal \<Rightarrow> ScoreVal \<Rightarrow> int list) \<Rightarrow>
   (bool \<Rightarrow> ScoreVal \<Rightarrow> ScoreVal \<Rightarrow> ScoreVal \<Rightarrow> ScoreVal \<times> PtrVal \<Rightarrow> ScoreVal \<times> PtrVal) \<Rightarrow>
   'a list \<Rightarrow> 'a list \<Rightarrow> nat \<Rightarrow>
   ScoreVal list \<times> ScoreVal list \<times> PtrMat \<times> BackTrace \<Rightarrow> int list" where
  "refLoop_sums cellSums cell query [] refIndex st = []"
| "refLoop_sums cellSums cell query (refSym # rest) refIndex st =
     (case refStep cell query refSym refIndex st of (thisSV, prevSV, pm, bt) \<Rightarrow>
        concat (map (\<lambda>q. cellSums (query ! q = refSym) (prevSV ! q) (prevSV ! Suc q) (thisSV ! q))
                  [0..<length query])
        @ refLoop_sums cellSums cell query rest (Suc refIndex) (thisSV, prevSV, pm, bt))"

definition dpPasses_sums :: "GlobalJumpAligner \<Rightarrow> 'a list \<Rightarrow> 'a list \<Rightarrow> 'a list \<Rightarrow> int list" where
  "dpPasses_sums al query ref1 ref2 =
     (let querySize = length query;
          thisSV = resize_scores (querySize + 1) (score1 al);
          prevSV = resize_scores (querySize + 1) (score2 al);
          thisSV = initScores (scores al) querySize thisSV;
          st1 = (thisSV, prevSV, ptrMat1 al, BackTrace_init);
          (thisSV, prevSV, pm1, bt) =
             refLoop (updateCell1 (scores al) (jumpScore al)) query ref1 0 st1;
          thisSV = initScores (scores al) querySize thisSV;
          st2 = (thisSV, prevSV, ptrMat2 al, bt)
      in refLoop_sums (updateCell1_sums (scores al) (jumpScore al))
           (updateCell1 (scores al) (jumpScore al)) query ref1 0 st1
         @ refLoop_sums (updateCell2_sums (scores al)) (updateCell2 (scores al)) query ref2 0 st2)"

text \<open>
  The value of \<open>bt\<close> when the traceback starts: after both passes and the fall-off loop.
\<close>

definition backtraceStart :: "GlobalJumpAligner \<Rightarrow> 'a list \<Rightarrow> 'a list \<Rightarrow> 'a list \<Rightarrow> BackTrace" where
  "backtraceStart al query ref1 ref2 =
     (case dpPasses al query ref1 ref2 of (thisSV, pm1, pm2, bt) \<Rightarrow>
        fallOff (scores al) (length query) (refSize al) thisSV bt)"



text \<open>
  The recurrences that the inner loop of pass 1 and of pass 2 establishes between the row
  \<open>A\<close> of the reference symbol before and the row \<open>T\<close> of the symbol \<open>rs\<close>.
\<close>

definition pass1_row :: "AlignmentScores \<Rightarrow> 'a list \<Rightarrow> 'a \<Rightarrow> ScoreVal list \<Rightarrow> ScoreVal list \<Rightarrow> bool" where
  "pass1_row sc query rs A T =
     (length T = Suc (length query) \<and> match (T ! 0) = 0 \<and> del (T ! 0) = badVal \<and> ins (T ! 0) = badVal \<and>
      (\<forall>q < length query.
         match (T ! Suc q) = max (max (match (A ! q)) (del (A ! q))) (ins (A ! q))
            + (if query ! q = rs then s_match sc else s_mismatch sc) \<and>
         del (T ! Suc q) = max (max (match (A ! Suc q) + s_open sc) (del (A ! Suc q))) (ins (A ! Suc q))
            + s_extend sc + s_extend sc \<and>
         ins (T ! Suc q) = max (max (match (T ! q) + s_open sc) (del (T ! q))) (ins (T ! q))
            + s_extend sc))"

definition pass2_row :: "AlignmentScores \<Rightarrow> 'a list \<Rightarrow> 'a \<Rightarrow> ScoreVal list \<Rightarrow> ScoreVal list \<Rightarrow> bool" where
  "pass2_row sc query rs A T =
     (length T = Suc (length query) \<and> match (T ! 0) = 0 \<and> del (T ! 0) = badVal \<and> ins (T ! 0) = badVal \<and>
      (\<forall>q < length query.
         match (T ! Suc q) = max (max (max (match (A ! q)) (del (A ! q))) (ins (A ! q))) (jump (A ! q))
            + (if query ! q = rs then s_match sc else s_mismatch sc) \<and>
         del (T ! Suc q) = max (max (match (A ! Suc q) + s_open sc) (del (A ! Suc q))) (ins (A ! Suc q))
            + s_extend sc \<and>
         ins (T ! Suc q) = max (max (max (match (T ! q) + s_open sc) (del (T ! q))) (ins (T ! q))) (jump (T ! q))
            + s_extend sc \<and>
         jump (T ! Suc q) = jump (A ! Suc q)))"

text \<open>
  Bounds on a row: in column \<open>q\<close> no score exceeds \<open>q\<close> matches; in pass 1 the delete
  and insert scores stay strictly below.
\<close>

definition row_bounded :: "AlignmentScores \<Rightarrow> ScoreVal list \<Rightarrow> bool" where
  "row_bounded sc T =
     (\<forall>q < length T. match (T ! q) \<le> int q * s_match sc \<and> del (T ! q) < int q * s_match sc \<and>
        ins (T ! q) < int q * s_match sc)"

definition row_bounded2 :: "AlignmentScores \<Rightarrow> ScoreVal list \<Rightarrow> bool" where
  "row_bounded2 sc T =
     (\<forall>q < length T. match (T ! q) \<le> int q * s_match sc \<and> del (T ! q) \<le> int q * s_match sc \<and>
        ins (T ! q) \<le> int q * s_match sc \<and> jump (T ! q) \<le> int q * s_match sc)"

text \<open>From below: in column \<open>q\<close> the match score is at least \<open>q\<close> mismatches.\<close>

definition row_lower :: "AlignmentScores \<Rightarrow> ScoreVal list \<Rightarrow> bool" where
  "row_lower sc T = (\<forall>q < length T. int q * s_mismatch sc \<le> match (T ! q))"

text \<open>The insert scores of a row of pass 1 from below.\<close>

definition ins_floor :: "AlignmentScores \<Rightarrow> int \<Rightarrow> nat \<Rightarrow> ScoreVal list \<Rightarrow> bool" where
  "ins_floor sc js Q T =
     (\<forall>q < length T. - ((int Q + 2) * score_bound sc js + 10000) \<le> ins (T ! q))"

text \<open>The bounds that each pass keeps, whatever the query and the reference are.\<close>

definition range1_inv ::
  "AlignmentScores \<Rightarrow> int \<Rightarrow> nat \<Rightarrow> ScoreVal list \<times> ScoreVal list \<times> PtrMat \<times> BackTrace \<Rightarrow> bool" where
  "range1_inv sc js Q st =
     (case st of (T, P, pm, bt) \<Rightarrow>
        length T = Suc Q \<and> length P = Suc Q \<and> jump (T ! 0) \<le> 0 \<and> jump (P ! 0) \<le> 0 \<and>
        row_bounded sc T \<and> row_lower sc T \<and> ins_floor sc js Q T)"

definition range2_inv ::
  "AlignmentScores \<Rightarrow> nat \<Rightarrow> ScoreVal list \<times> ScoreVal list \<times> PtrMat \<times> BackTrace \<Rightarrow> bool" where
  "range2_inv sc Q st =
     (case st of (T, P, pm, bt) \<Rightarrow>
        length T = Suc Q \<and> length P = Suc Q \<and> row_bounded2 sc T \<and> row_lower sc T \<and>
        jump (P ! 0) \<le> 0)"

text \<open>
  The match pointers from cell \<open>(q, r)\<close> down the diagonal to column 1 of the query all
  point to the match state.
\<close>

definition match_chain :: "PtrMat \<Rightarrow> nat \<Rightarrow> nat \<Rightarrow> bool" where
  "match_chain pm q r = (\<forall>k < q. p_match (pm (q - k) (r - k)) = AlignState_MATCH)"




section \<open>Properties of the locus graph\<close>

lemma unat_size_locus: "length (graph g) < 2 ^ 32 \<Longrightarrow> unat (size_locus g) = length (graph g)"
  by (simp add: size_locus_def unat_of_nat)

lemma unat_maxIndex: "unat maxIndex = 2 ^ 32 - 1"
  by (simp add: maxIndex_def unsigned_minus_1_eq_mask mask_eq_exp_minus_1)

lemma size_locus_less_maxIndex:
  assumes "length (graph g) < 2 ^ 32"
  shows "(size_locus g < maxIndex) = (length (graph g) \<noteq> 2 ^ 32 - 1)"
proof -
  have "(size_locus g < maxIndex) = (length (graph g) < 2 ^ 32 - 1)"
    by (simp add: word_less_nat_alt unat_size_locus [OF assms] unat_maxIndex)
  with assms show ?thesis by auto
qed

lemma unat_size_locus_Suc:
  assumes "length (graph g) < 2 ^ 32 - 1"
  shows "unat (size_locus g + 1) = Suc (length (graph g))"
proof -
  have "size_locus g + 1 = (of_nat (Suc (length (graph g))) :: 32 word)"
    by (simp add: size_locus_def)
  moreover have "unat (of_nat (Suc (length (graph g))) :: 32 word) = Suc (length (graph g))"
    using assms by (simp add: unat_of_nat del: of_nat_Suc)
  ultimately show ?thesis by (simp only:)
qed

lemma resize_graph_Suc: "resize_graph (Suc (length ns)) ns = ns @ [SVLocusNode_init]"
  by (simp add: resize_graph_def)

lemma newGraphNode_ok:
  assumes "length (graph g) < 2 ^ 32 - 1"
  shows "newGraphNode g = Inr (size_locus g, g\<lparr>graph := graph g @ [SVLocusNode_init]\<rparr>)"
proof -
  have l: "length (graph g) < 2 ^ 32" using assms by simp
  show ?thesis
    using assms
    by (simp add: newGraphNode_def Let_def size_locus_less_maxIndex [OF l]
        unat_size_locus_Suc resize_graph_Suc)
qed

lemma newGraphNode_full:
  assumes "length (graph g) = 2 ^ 32 - 1"
  shows "newGraphNode g = Inl (AssertionFailure, g)"
proof -
  have l: "length (graph g) < 2 ^ 32" using assms by simp
  show ?thesis
    using assms by (simp add: newGraphNode_def Let_def size_locus_less_maxIndex [OF l])
qed

text \<open>
  Claim C7. On a locus whose size fits the index type, \<^verbatim>\<open>addNode\<close> fails exactly when
  the index space is exhausted (the size is the largest index, \<open>2^32 - 1\<close>). Otherwise it
  returns the size the graph had, appends one node with count 1, the given chromosome and
  range and no edges, leaves every other node as it was, and hands exactly one add
  message with the new index to the observers.
\<close>
theorem addNode_appends:
  assumes "length (graph g) < 2 ^ 32"
  shows "addNode g chrom b e =
    (if length (graph g) = 2 ^ 32 - 1 then Inl (AssertionFailure, g)
     else Inr (of_nat (length (graph g)),
               g\<lparr>graph := graph g @
                    [\<lparr>count = 1,
                      interval = \<lparr>tid = chrom, range = \<lparr>begin_pos = b, end_pos = e\<rparr>\<rparr>,
                      edges = []\<rparr>],
                 notified := notified g @ [(True, (index g, of_nat (length (graph g))))]\<rparr>))"
proof (cases "length (graph g) = 2 ^ 32 - 1")
  case True
  then show ?thesis by (simp add: addNode_def newGraphNode_full)
next
  case False
  with assms have lt: "length (graph g) < 2 ^ 32 - 1" by simp
  have u: "unat (size_locus g) = length (graph g)"
    using assms by (rule unat_size_locus)
  have s: "size_locus g = of_nat (length (graph g))"
    by (simp add: size_locus_def)
  show ?thesis
    using False
    by (simp add: addNode_def newGraphNode_ok [OF lt] getNode_def u setNode_def
        notifyAdd_def notify_observers_def SVLocusNode_init_def GenomeInterval_init_def
        set_range_def flip: s)
qed

text \<open>Claim C7 at the empty locus 3: the first node gets index 0.\<close>
theorem addNode_appends_witness:
  "length (graph (SVLocus_init 3)) < 2 ^ 32 \<and>
   addNode (SVLocus_init 3) 1 10 20 =
     Inr (0, \<lparr>graph = [\<lparr>count = 1,
                        interval = \<lparr>tid = 1, range = \<lparr>begin_pos = 10, end_pos = 20\<rparr>\<rparr>,
                        edges = []\<rparr>],
              index = 3, notified = [(True, (3, 0))]\<rparr>)"
  using addNode_appends [of "SVLocus_init 3" 1 10 20]
  by (simp add: SVLocus_init_def)

lemma edges_count_0_iff: "(edges_count es k = 0) = (k \<notin> fst ` set es)"
  by (simp add: edges_count_def)

lemma map_of_edges_place:
  "k \<notin> fst ` set es \<Longrightarrow> map_of (edges_place k v es) = (map_of es)(k \<mapsto> v)"
  by (induction k v es rule: edges_place.induct) (auto simp: fun_upd_twist)

lemma set_edges_place: "set (edges_place k v es) = insert (k, v) (set es)"
  by (induction k v es rule: edges_place.induct) auto

lemma edges_place_sorted:
  "k \<notin> fst ` set es \<Longrightarrow> edges_ok es \<Longrightarrow> edges_ok (edges_place k v es)"
proof (induction k v es rule: edges_place.induct)
  case (1 k v)
  then show ?case by (simp add: edges_ok_def)
next
  case (2 k v k' v' es)
  then have ne: "k \<noteq> k'" and nin: "k \<notin> fst ` set es" by auto
  from "2.prems"(2) have s: "edges_ok es" and lt: "\<forall>x \<in> set es. k' < fst x"
    by (auto simp: edges_ok_def)
  show ?case
  proof (cases "k < k'")
    case True
    with "2.prems"(2) lt show ?thesis
      by (auto simp: edges_ok_def intro: order.strict_trans)
  next
    case False
    with ne have gt: "k' < k" by auto
    from "2.IH" [OF False nin s] have "edges_ok (edges_place k v es)" .
    with False gt lt show ?thesis
      by (auto simp: edges_ok_def set_edges_place)
  qed
qed

lemma edges_insert_ok: "edges_ok es \<Longrightarrow> edges_ok (edges_insert es kv)"
  by (simp add: edges_insert_def edges_count_0_iff edges_place_sorted)

lemma map_of_edges_insert_new:
  "k \<notin> fst ` set es \<Longrightarrow> map_of (edges_insert es (k, v)) = (map_of es)(k \<mapsto> v)"
  by (simp add: edges_insert_def edges_count_0_iff map_of_edges_place)

lemma edges_insert_present: "k \<in> fst ` set es \<Longrightarrow> edges_insert es (k, v) = es"
  by (simp add: edges_insert_def edges_count_def)

lemma key_in_edges_insert: "k \<in> fst ` set (edges_insert es (k, v))"
  by (auto simp: edges_insert_def edges_count_0_iff set_edges_place)

lemma SVLocusEdge_init_1: "SVLocusEdge_init 1 = \<lparr>edge_count = 1\<rparr>"
  by (simp add: SVLocusEdge_init_def)

lemma filter_key_edges_place:
  "k \<notin> fst ` set es \<Longrightarrow> filter (\<lambda>kv. fst kv = k) (edges_place k v es) = [(k, v)]"
  by (induction k v es rule: edges_place.induct) (auto simp: filter_empty_conv)

lemma linkNodes_unfold:
  assumes "unat a < length (graph g)" "unat b < length (graph g)"
    and "a \<notin> fst ` set (edges (graph g ! unat b))" "b \<notin> fst ` set (edges (graph g ! unat a))"
  shows "linkNodes g a b =
    Inr (g\<lparr>graph := (graph g)
          [unat a := (graph g ! unat a)
             \<lparr>edges := edges_insert (edges (graph g ! unat a)) (b, \<lparr>edge_count = 1\<rparr>)\<rparr>,
           unat b := ((graph g)
               [unat a := (graph g ! unat a)
                  \<lparr>edges := edges_insert (edges (graph g ! unat a)) (b, \<lparr>edge_count = 1\<rparr>)\<rparr>] ! unat b)
             \<lparr>edges := edges_insert (edges ((graph g)
               [unat a := (graph g ! unat a)
                  \<lparr>edges := edges_insert (edges (graph g ! unat a)) (b, \<lparr>edge_count = 1\<rparr>)\<rparr>] ! unat b))
                 (a, \<lparr>edge_count = 1\<rparr>)\<rparr>]\<rparr>)"
  using assms
  by (simp add: linkNodes_def getNode_def setNode_def Let_def edges_count_0_iff SVLocusEdge_init_1)

lemma linkNodes_abort:
  assumes "unat a < length (graph g)" "unat b < length (graph g)"
    and "a \<in> fst ` set (edges (graph g ! unat b)) \<or> b \<in> fst ` set (edges (graph g ! unat a))"
  shows "linkNodes g a b = Inl (AssertionFailure, g)"
  using assms
  by (auto simp: linkNodes_def getNode_def edges_count_def)

text \<open>
  Claim C8. For two existing nodes \<open>a\<close> and \<open>b\<close>: when neither has an edge to the other,
  \<^verbatim>\<open>linkNodes\<close> returns a graph of the same size in which \<open>a\<close> maps \<open>b\<close> to count 1 and
  \<open>b\<close> maps \<open>a\<close> to count 1, while every other entry of every edge map, every node count
  and interval, the locus index and the notifications are unchanged. When an edge exists
  in either direction, the call ends in the failed assertion with the locus unmodified.
\<close>
theorem linkNodes_symmetric_edge:
  assumes "unat a < length (graph g)" and "unat b < length (graph g)"
  shows "(a \<notin> fst ` set (edges (graph g ! unat b)) \<and> b \<notin> fst ` set (edges (graph g ! unat a)) \<longrightarrow>
      (\<exists>g'. linkNodes g a b = Inr g' \<and>
         length (graph g') = length (graph g) \<and> index g' = index g \<and> notified g' = notified g \<and>
         (\<forall>i < length (graph g).
            count (graph g' ! i) = count (graph g ! i) \<and>
            interval (graph g' ! i) = interval (graph g ! i) \<and>
            (\<forall>k. map_of (edges (graph g' ! i)) k =
                 (if (i = unat a \<and> k = b) \<or> (i = unat b \<and> k = a) then Some \<lparr>edge_count = 1\<rparr>
                  else map_of (edges (graph g ! i)) k))))) \<and>
    (a \<in> fst ` set (edges (graph g ! unat b)) \<or> b \<in> fst ` set (edges (graph g ! unat a)) \<longrightarrow>
      linkNodes g a b = Inl (AssertionFailure, g))"
proof (intro conjI impI)
  assume "a \<in> fst ` set (edges (graph g ! unat b)) \<or> b \<in> fst ` set (edges (graph g ! unat a))"
  with assms show "linkNodes g a b = Inl (AssertionFailure, g)"
    by (rule linkNodes_abort)
next
  assume free: "a \<notin> fst ` set (edges (graph g ! unat b)) \<and> b \<notin> fst ` set (edges (graph g ! unat a))"
  let ?ea = "edges (graph g ! unat a)" and ?eb = "edges (graph g ! unat b)"
  note u = linkNodes_unfold [OF assms conjunct1 [OF free] conjunct2 [OF free]]
  show "\<exists>g'. linkNodes g a b = Inr g' \<and>
         length (graph g') = length (graph g) \<and> index g' = index g \<and> notified g' = notified g \<and>
         (\<forall>i < length (graph g).
            count (graph g' ! i) = count (graph g ! i) \<and>
            interval (graph g' ! i) = interval (graph g ! i) \<and>
            (\<forall>k. map_of (edges (graph g' ! i)) k =
                 (if (i = unat a \<and> k = b) \<or> (i = unat b \<and> k = a) then Some \<lparr>edge_count = 1\<rparr>
                  else map_of (edges (graph g ! i)) k)))"
  proof (cases "a = b")
    case True
    with free have nb: "b \<notin> fst ` set ?eb" by simp
    show ?thesis
      unfolding u using True assms nb
      by (simp add: nth_list_update edges_insert_present [OF key_in_edges_insert]
          map_of_edges_insert_new)
  next
    case False
    then have ne: "unat a \<noteq> unat b" by (simp add: word_unat_eq_iff)
    have ma: "map_of (edges_insert ?ea (b, \<lparr>edge_count = 1\<rparr>)) = (map_of ?ea)(b \<mapsto> \<lparr>edge_count = 1\<rparr>)"
      using free by (simp add: map_of_edges_insert_new)
    have mb: "map_of (edges_insert ?eb (a, \<lparr>edge_count = 1\<rparr>)) = (map_of ?eb)(a \<mapsto> \<lparr>edge_count = 1\<rparr>)"
      using free by (simp add: map_of_edges_insert_new)
    show ?thesis
      unfolding u using False ne assms ma mb
      by (auto simp: nth_list_update)
  qed
qed

text \<open>
  Claim C10. For an existing node \<open>a\<close> without an edge to itself, \<^verbatim>\<open>linkNodes(a, a)\<close>
  passes both assertions and returns the graph in which only node \<open>a\<close> changed: its
  edge map gained the one entry \<open>a\<close> with count 1 (the second insert finds the key and
  does nothing).
\<close>
theorem linkNodes_self_loop:
  assumes "unat a < length (graph g)" and "a \<notin> fst ` set (edges (graph g ! unat a))"
  shows "linkNodes g a a =
      Inr (g\<lparr>graph := (graph g)[unat a := (graph g ! unat a)
               \<lparr>edges := edges_place a \<lparr>edge_count = 1\<rparr> (edges (graph g ! unat a))\<rparr>]\<rparr>) \<and>
    filter (\<lambda>kv. fst kv = a) (edges_place a \<lparr>edge_count = 1\<rparr> (edges (graph g ! unat a))) =
      [(a, \<lparr>edge_count = 1\<rparr>)]"
proof -
  have "edges_insert (edges (graph g ! unat a)) (a, \<lparr>edge_count = 1\<rparr>) =
      edges_place a \<lparr>edge_count = 1\<rparr> (edges (graph g ! unat a))"
    using assms(2) by (simp add: edges_insert_def edges_count_0_iff)
  moreover have "a \<in> fst ` set (edges_place a \<lparr>edge_count = 1\<rparr> (edges (graph g ! unat a)))"
    by (simp add: set_edges_place)
  ultimately show ?thesis
    using assms
    by (simp add: linkNodes_unfold [OF assms(1) assms(1) assms(2) assms(2)]
        edges_insert_present filter_key_edges_place)
qed

lemma edges_place_last:
  "\<forall>x \<in> set es. fst x < k \<Longrightarrow> edges_place k v es = es @ [(k, v)]"
  by (induction k v es rule: edges_place.induct) auto

lemma edges_insert_last:
  assumes "\<forall>x \<in> set es. fst x < k"
  shows "edges_insert es (k, v) = es @ [(k, v)]"
proof -
  from assms have "k \<notin> fst ` set es" by auto
  with assms show ?thesis
    by (simp add: edges_insert_def edges_count_0_iff edges_place_last)
qed

lemma foldl_edges_insert_sorted:
  "edges_ok (acc @ es) \<Longrightarrow> foldl edges_insert acc es = acc @ es"
proof (induction es arbitrary: acc)
  case Nil
  then show ?case by simp
next
  case (Cons kv es)
  obtain k v where kv: "kv = (k, v)" by (cases kv)
  from Cons.prems have "\<forall>x \<in> set acc. fst x < k"
    by (auto simp: edges_ok_def kv sorted_wrt_append)
  then have "edges_insert acc kv = acc @ [kv]"
    unfolding kv by (rule edges_insert_last)
  moreover from Cons.prems have "edges_ok ((acc @ [kv]) @ es)" by simp
  ultimately show ?case using Cons.IH [of "acc @ [kv]"] by simp
qed

lemma SVLocusNode_copy_0: "edges_ok (edges n) \<Longrightarrow> SVLocusNode_copy n 0 = n"
  using foldl_edges_insert_sorted [of "[]" "edges n"]
  by (simp add: SVLocusNode_copy_def edges_insert_def [abs_def] cong: foldl_cong)

lemma load_word_save [simp]: "load_word (save_word w @ ar) = Some (w, ar)"
  by (simp add: save_word_def word_of_int_uint)

lemma load_size_save [simp]: "load_size (save_size n @ ar) = Some (n, ar)"
  by (simp add: save_size_def)

lemma load_items_save:
  assumes "\<And>x ar. x \<in> set xs \<Longrightarrow> ld (sv x @ ar) = Some (x, ar)"
  shows "load_items ld (length xs) (save_items sv xs @ ar) = Some (xs, ar)"
  using assms by (induction xs) (simp_all add: save_items_def)

lemma load_SVLocusEdge_save [simp]: "load_SVLocusEdge (save_SVLocusEdge e @ ar) = Some (e, ar)"
  by (simp add: load_SVLocusEdge_def save_SVLocusEdge_def)

lemma load_edge_pair_save [simp]: "load_edge_pair (save_edge_pair kv @ ar) = Some (kv, ar)"
  by (simp add: load_edge_pair_def save_edge_pair_def)

lemma load_known_pos_range_save [simp]:
  "load_known_pos_range (save_known_pos_range r @ ar) = Some (r, ar)"
  by (simp add: load_known_pos_range_def save_known_pos_range_def)

lemma load_GenomeInterval_save [simp]:
  "load_GenomeInterval (save_GenomeInterval gi @ ar) = Some (gi, ar)"
  by (simp add: load_GenomeInterval_def save_GenomeInterval_def)

lemma load_edges_save:
  "edges_ok es \<Longrightarrow> load_edges (save_edges es @ ar) = Some (es, ar)"
  using foldl_edges_insert_sorted [of "[]" es]
  by (simp add: load_edges_def save_edges_def load_items_save)

lemma load_SVLocusNode_save:
  "edges_ok (edges n) \<Longrightarrow> load_SVLocusNode (save_SVLocusNode n @ ar) = Some (n, ar)"
  by (simp add: load_SVLocusNode_def save_SVLocusNode_def load_edges_save)

lemma load_graph_save:
  "\<forall>n \<in> set ns. edges_ok (edges n) \<Longrightarrow> load_graph (save_graph ns @ ar) = Some (ns, ar)"
  by (simp add: load_graph_def save_graph_def load_items_save load_SVLocusNode_save)

lemma notified_foldl_notifyDelete:
  "foldl (\<lambda>g' i. notifyDelete (of_nat i) g') g is =
     g\<lparr>notified := notified g @ map (\<lambda>i. (False, (index g, of_nat i))) is\<rparr>"
  by (induction "is" arbitrary: g) (simp_all add: notifyDelete_def notify_observers_def)

lemma clear_eq:
  "length (graph g) < 2 ^ 32 \<Longrightarrow>
   clear g = g\<lparr>graph := [],
     notified := notified g @ map (\<lambda>i. (False, (index g, of_nat i))) [0..<length (graph g)]\<rparr>"
  by (simp add: clear_def notified_foldl_notifyDelete unat_size_locus)

text \<open>
  Claim C1, amended. Loading what \<^verbatim>\<open>save\<close> wrote for \<open>g\<close> into any locus \<open>g2\<close> first
  clears \<open>g2\<close> (one delete message for each of its nodes, none of which remains) and
  then holds exactly the nodes of \<open>g\<close>: the same number of nodes, each with its count,
  interval and edge map; what follows in the archive is left unread. The locus index is
  not part of the archive: the loaded locus keeps the index of \<open>g2\<close>.
\<close>
theorem load_save_restores_graph:
  assumes "edge_maps_ok (graph g)" and "length (graph g2) < 2 ^ 32"
  shows "load (save g [] @ ar) g2 =
     Inr (g2\<lparr>graph := graph g,
             notified := notified g2 @
               map (\<lambda>i. (False, (index g2, of_nat i))) [0..<length (graph g2)]\<rparr>, ar)"
proof -
  from assms(1) have "\<forall>n \<in> set (graph g). edges_ok (edges n)"
    by (simp add: edge_maps_ok_def list_all_iff)
  from load_graph_save [OF this, of ar] show ?thesis
    by (simp add: load_def save_def clear_eq [OF assms(2)])
qed

text \<open>Claim C1, amended, at \<open>locus_linked\<close> loaded into \<open>locus_one\<close>.\<close>
theorem load_save_restores_graph_witness:
  "edge_maps_ok (graph locus_linked) \<and> length (graph locus_one) < 2 ^ 32 \<and>
   load (save locus_linked []) locus_one =
     Inr (\<lparr>graph = graph locus_linked, index = 3, notified = [(True, (3, 0)), (False, (3, 0))]\<rparr>, [])"
proof -
  have a: "edge_maps_ok (graph locus_linked)"
    by (simp add: locus_linked_def edge_maps_ok_def edges_ok_def)
  have b: "length (graph locus_one) < 2 ^ 32"
    by (simp add: locus_one_def)
  show ?thesis
    using a b load_save_restores_graph [OF a b, of "[]"]
    by (simp add: locus_one_def)
qed

text \<open>
  Claim C1 as stated fails: \<open>locus_linked\<close> has index 7, and after the round trip into
  \<open>locus_one\<close> the locus has index 3.
\<close>
theorem load_keeps_own_index:
  "load (save locus_linked []) locus_one =
     Inr (\<lparr>graph = graph locus_linked, index = 3, notified = [(True, (3, 0)), (False, (3, 0))]\<rparr>, []) \<and>
   index locus_linked = 7"
proof -
  have a: "\<forall>n \<in> set (graph locus_linked). edges_ok (edges n)"
    by (simp add: locus_linked_def edges_ok_def)
  have b: "length (graph locus_one) < 2 ^ 32"
    by (simp add: locus_one_def)
  have "load (save locus_linked []) locus_one =
     Inr (\<lparr>graph = graph locus_linked, index = 3, notified = [(True, (3, 0)), (False, (3, 0))]\<rparr>, [])"
    using load_graph_save [OF a, of "[]"]
    by (simp add: load_def save_def clear_eq [OF b]) (simp add: locus_one_def)
  then show ?thesis by (simp add: locus_linked_def)
qed

lemma copyLocus_step_ok:
  assumes "length (graph g) < 2 ^ 32 - 1"
  shows "copyLocus_step offset g n =
    Inr (g\<lparr>graph := graph g @ [SVLocusNode_copy n offset],
           notified := notified g @ [(True, (index g, of_nat (length (graph g))))]\<rparr>)"
proof -
  have l: "length (graph g) < 2 ^ 32" using assms by simp
  have s: "size_locus g = of_nat (length (graph g))"
    by (simp add: size_locus_def)
  show ?thesis
    by (simp add: copyLocus_step_def newGraphNode_ok [OF assms] getNode_def
        unat_size_locus [OF l] setNode_def notifyAdd_def notify_observers_def flip: s)
qed

lemma copyLocus_loop_ok:
  "length (graph g) + length ns < 2 ^ 32 \<Longrightarrow>
   copyLocus_loop offset g ns =
     Inr (g\<lparr>graph := graph g @ map (\<lambda>n. SVLocusNode_copy n offset) ns,
            notified := notified g @
              map (\<lambda>i. (True, (index g, of_nat i))) [length (graph g)..<length (graph g) + length ns]\<rparr>)"
proof (induction ns arbitrary: g)
  case Nil
  then show ?case by simp
next
  case (Cons n ns)
  from Cons.prems have lt: "length (graph g) < 2 ^ 32 - 1" by simp
  let ?g1 = "g\<lparr>graph := graph g @ [SVLocusNode_copy n offset],
           notified := notified g @ [(True, (index g, of_nat (length (graph g))))]\<rparr>"
  from Cons.prems have "length (graph ?g1) + length ns < 2 ^ 32" by simp
  from Cons.IH [OF this]
  have "copyLocus_loop offset ?g1 ns =
     Inr (g\<lparr>graph := graph g @ SVLocusNode_copy n offset # map (\<lambda>n. SVLocusNode_copy n offset) ns,
            notified := notified g @ (True, (index g, of_nat (length (graph g)))) #
              map (\<lambda>i. (True, (index g, of_nat i)))
                [Suc (length (graph g))..<Suc (length (graph g) + length ns)]\<rparr>)"
    by simp
  moreover have "[length (graph g)..<length (graph g) + length (n # ns)] =
      length (graph g) # [Suc (length (graph g))..<Suc (length (graph g) + length ns)]"
    by (subst upt_conv_Cons) (simp_all del: upt_Suc)
  ultimately show ?case
    by (simp only: copyLocus_loop.simps copyLocus_step_ok [OF lt] sum.case list.map)
qed

text \<open>
  Claim C6. \<^verbatim>\<open>copyLocus\<close> of a locus \<open>other\<close> into an empty locus makes the graph equal
  to the graph of \<open>other\<close>: the same number of nodes, each with the count, the interval
  and the edge map (targets and counts, offset 0) of its source node, and it hands one
  add message per copied node, in index order, to the observers.
\<close>
theorem copyLocus_into_empty:
  assumes "graph g = []" and "edge_maps_ok (graph other)"
    and "length (graph other) < 2 ^ 32"
  shows "copyLocus False g other =
     Inr (g\<lparr>graph := graph other,
            notified := notified g @
              map (\<lambda>i. (True, (index g, of_nat i))) [0..<length (graph other)]\<rparr>)"
proof -
  have "map (\<lambda>n. SVLocusNode_copy n 0) (graph other) = graph other"
    using assms(2) by (simp add: SVLocusNode_copy_0 map_idI edge_maps_ok_def list_all_iff)
  moreover have "size_locus g = 0"
    using assms(1) by (simp add: size_locus_def)
  ultimately show ?thesis
    using assms(1,3) copyLocus_loop_ok [of g "graph other" 0]
    by (simp add: copyLocus_def)
qed

text \<open>Claim C6 at \<open>locus_linked\<close> copied into the empty locus 5.\<close>
theorem copyLocus_into_empty_witness:
  "graph (SVLocus_init 5) = [] \<and> edge_maps_ok (graph locus_linked) \<and>
   length (graph locus_linked) < 2 ^ 32 \<and>
   copyLocus False (SVLocus_init 5) locus_linked =
     Inr \<lparr>graph = graph locus_linked, index = 5, notified = [(True, (5, 0)), (True, (5, 1))]\<rparr>"
proof -
  have a: "graph (SVLocus_init 5) = []" by (simp add: SVLocus_init_def)
  have b: "edge_maps_ok (graph locus_linked)"
    by (simp add: locus_linked_def edge_maps_ok_def edges_ok_def)
  have c: "length (graph locus_linked) < 2 ^ 32" by (simp add: locus_linked_def)
  have d: "[0..<length (graph locus_linked)] = [0, 1]"
    by (simp add: locus_linked_def upt_rec)
  show ?thesis
    using a b c copyLocus_into_empty [OF a b c]
    by (simp add: SVLocus_init_def d)
qed

text \<open>
  Claim C8 at the two unlinked nodes of \<open>locus_two\<close>, and at \<open>locus_linked\<close>, where the
  edge exists already.
\<close>
theorem linkNodes_symmetric_edge_witness:
  "unat (0 :: 32 word) < length (graph locus_two) \<and> unat (1 :: 32 word) < length (graph locus_two) \<and>
   (\<exists>g'. linkNodes locus_two 0 1 = Inr g' \<and>
      map_of (edges (graph g' ! 0)) 1 = Some \<lparr>edge_count = 1\<rparr> \<and>
      map_of (edges (graph g' ! 1)) 0 = Some \<lparr>edge_count = 1\<rparr> \<and>
      map_of (edges (graph g' ! 1)) 1 = None) \<and>
   linkNodes locus_linked 0 1 = Inl (AssertionFailure, locus_linked)"
proof -
  have a: "unat (0 :: 32 word) < length (graph locus_two)"
    and b: "unat (1 :: 32 word) < length (graph locus_two)"
    by (simp_all add: locus_two_def)
  have c: "unat (0 :: 32 word) < length (graph locus_linked)"
    and d: "unat (1 :: 32 word) < length (graph locus_linked)"
    by (simp_all add: locus_linked_def)
  have free: "0 \<notin> fst ` set (edges (graph locus_two ! unat (1 :: 32 word))) \<and>
      1 \<notin> fst ` set (edges (graph locus_two ! unat (0 :: 32 word)))"
    by (simp add: locus_two_def)
  have taken: "0 \<in> fst ` set (edges (graph locus_linked ! unat (1 :: 32 word)))"
    by (simp add: locus_linked_def)
  from linkNodes_symmetric_edge [OF a b] free
  obtain g' where g': "linkNodes locus_two 0 1 = Inr g'"
    and e: "\<forall>i < length (graph locus_two). \<forall>k. map_of (edges (graph g' ! i)) k =
                 (if (i = unat (0 :: 32 word) \<and> k = 1) \<or> (i = unat (1 :: 32 word) \<and> k = 0)
                  then Some \<lparr>edge_count = 1\<rparr>
                  else map_of (edges (graph locus_two ! i)) k)"
    by blast
  have l: "(0::nat) < length (graph locus_two)" "(1::nat) < length (graph locus_two)"
    by (simp_all add: locus_two_def)
  have "map_of (edges (graph g' ! 0)) 1 = Some \<lparr>edge_count = 1\<rparr>"
    using e [rule_format, OF l(1), of 1] by simp
  moreover have "map_of (edges (graph g' ! 1)) 0 = Some \<lparr>edge_count = 1\<rparr>"
    using e [rule_format, OF l(2), of 0] by simp
  moreover have "map_of (edges (graph g' ! 1)) 1 = None"
    using e [rule_format, OF l(2), of 1] by (simp add: locus_two_def)
  moreover have "linkNodes locus_linked 0 1 = Inl (AssertionFailure, locus_linked)"
    using linkNodes_symmetric_edge [OF c d] taken by blast
  ultimately show ?thesis using a b g' by blast
qed

text \<open>Claim C10 at node 0 of \<open>locus_two\<close>.\<close>
theorem linkNodes_self_loop_witness:
  "unat (0 :: 32 word) < length (graph locus_two) \<and>
   0 \<notin> fst ` set (edges (graph locus_two ! unat (0 :: 32 word))) \<and>
   linkNodes locus_two 0 0 =
     Inr (locus_two\<lparr>graph :=
       [\<lparr>count = 1, interval = \<lparr>tid = 1, range = \<lparr>begin_pos = 10, end_pos = 20\<rparr>\<rparr>,
         edges = [(0, \<lparr>edge_count = 1\<rparr>)]\<rparr>,
        \<lparr>count = 1, interval = \<lparr>tid = 1, range = \<lparr>begin_pos = 30, end_pos = 40\<rparr>\<rparr>, edges = []\<rparr>]\<rparr>)"
proof -
  have a: "unat (0 :: 32 word) < length (graph locus_two)"
    by (simp add: locus_two_def)
  have b: "0 \<notin> fst ` set (edges (graph locus_two ! unat (0 :: 32 word)))"
    by (simp add: locus_two_def)
  show ?thesis
    using a b linkNodes_self_loop [OF a b]
    by (simp add: locus_two_def)
qed

text \<open>
  Claim C2. \<^verbatim>\<open>load\<close> creates nodes without announcing them: after \<open>locus_linked\<close> is
  loaded into the empty locus 3, the graph has two nodes and no message was handed to the
  observers.
\<close>
theorem load_announces_no_added_node:
  "load (save locus_linked []) (SVLocus_init 3) =
     Inr (\<lparr>graph = graph locus_linked, index = 3, notified = []\<rparr>, []) \<and>
   length (graph locus_linked) = 2"
proof -
  have a: "\<forall>n \<in> set (graph locus_linked). edges_ok (edges n)"
    by (simp add: locus_linked_def edges_ok_def)
  have b: "length (graph (SVLocus_init 3)) < 2 ^ 32"
    by (simp add: SVLocus_init_def)
  have "load (save locus_linked []) (SVLocus_init 3) =
     Inr (\<lparr>graph = graph locus_linked, index = 3, notified = []\<rparr>, [])"
    using load_graph_save [OF a, of "[]"]
    by (simp add: load_def save_def clear_eq [OF b]) (simp add: SVLocus_init_def)
  then show ?thesis by (simp add: locus_linked_def)
qed

text \<open>
  Claim C9. The constructor sets word length 37, maximal word length 65, minimal contig
  length 15, minimal coverage 1, maximal error rate 0.2, minimal number of seed reads 2
  and at most 50 assembly iterations.
\<close>
theorem SVLocusAssembler_defaults:
  "wordLength SVLocusAssembler_init = 37 \<and>
   maxWordLength SVLocusAssembler_init = 65 \<and>
   minContigLength SVLocusAssembler_init = 15 \<and>
   minCoverage SVLocusAssembler_init = 1 \<and>
   maxError SVLocusAssembler_init = 2 / 10 \<and>
   minSeedReads SVLocusAssembler_init = 2 \<and>
   maxAssemblyIterations SVLocusAssembler_init = 50"
  by (simp add: SVLocusAssembler_init_def)

section \<open>Properties of the jump aligner\<close>

subsection \<open>The delete score of pass 1\<close>

lemma fst_max3: "fst (max3 v0 v1 v2) = max (max v0 v1) v2"
  by (simp add: max3_def Let_def max_def)

lemma fst_max4: "fst (max4 v0 v1 v2 v3) = max (max (max v0 v1) v2) v3"
  by (simp add: max4_def max3_def Let_def max_def)

text \<open>
  In every cell of pass 1 the delete score is the maximum over the predecessors plus
  twice the extension penalty; in pass 2 the penalty is added once.
\<close>

lemma updateCell1_del:
  "del (fst (updateCell1 sc js isEq svalM svalD svalI head)) =
     max (max (match svalD + s_open sc) (del svalD)) (ins svalD) + 2 * s_extend sc"
  by (simp add: updateCell1_def Let_def split_beta fst_max3)

lemma updateCell2_del:
  "del (fst (updateCell2 sc isEq svalM svalD svalI head)) =
     max (max (match svalD + s_open sc) (del svalD)) (ins svalD) + s_extend sc"
  by (simp add: updateCell2_def Let_def split_beta fst_max3)

text \<open>
  Claim C3. Pass 1 on the query \<open>A\<close> against the reference \<open>A\<close>, with match 1, mismatch
  -4, open -5 and extend -1: the delete score of cell (1, 1) is -11, while the maximum
  over the three predecessors in the row before plus one extension penalty is -10.
\<close>

theorem pass1_delete_extended_twice:
  "(case refLoop (updateCell1 scores_plain (- 3)) ''A'' ''A'' 0
           (initScores scores_plain 1 (resize_scores 2 []), resize_scores 2 [],
            PtrMat_init, BackTrace_init) of
      (thisSV, prevSV, pm, bt) \<Rightarrow>
        (del (thisSV ! 1),
         max (max (match (prevSV ! 1) + s_open scores_plain) (del (prevSV ! 1))) (ins (prevSV ! 1))
           + s_extend scores_plain)) = (- 11, - 10)"
  by code_simp

subsection \<open>The jump state in the backtrace\<close>

text \<open>
  Pass 2 records the jump state as the predecessor of a match when the jump score is the
  largest. Here the query \<open>CA\<close> is aligned to \<open>G\<close> and \<open>GA\<close> with mismatch -10001
  and open -10000: the best cell is (2, 2) of pass 2 and its match pointer is the jump
  state.
\<close>

lemma pass2_records_jump:
  "snd (snd (snd (dpPasses (aligner_new scores_steep (- 3) PtrMat_init 3) ''CA'' ''G'' ''GA''))) =
     \<lparr>bt_max = - 9999, bt_state = AlignState_MATCH, queryStart = 2, refStart = 2, isInit = True\<rparr> \<and>
   p_match (fst (snd (snd (dpPasses (aligner_new scores_steep (- 3) PtrMat_init 3) ''CA'' ''G'' ''GA''))) 2 2)
     = AlignState_JUMP"
  by code_simp
















text \<open>
  The same alignment computed: three matches at the end of \<open>ref2\<close> and the last symbol of
  the query soft-clipped.
\<close>

lemma align_soft_clip_example:
  "align (aligner_new scores_plain (- 3) PtrMat_init 4) ''CGTT'' ''GGGG'' ''ACGT'' =
   Inr \<lparr>score = - 1, alignStart = 1,
        apath = [\<lparr>ps_type = ALIGNPATH_MATCH, ps_length = 3\<rparr>,
                 \<lparr>ps_type = ALIGNPATH_SOFT_CLIP, ps_length = 1\<rparr>]\<rparr>"
  by code_simp


text \<open>
  It fails in the same way for the usual scores when the matrix holds jump pointers: the
  second step of the traceback finds the jump state.
\<close>

lemma align_aborts_on_jump_pointers:
  "align (aligner_new scores_plain (- 3)
            (\<lambda>q r. \<lparr>p_match = AlignState_JUMP, p_del = AlignState_JUMP,
                     p_ins = AlignState_JUMP, p_jump = AlignState_JUMP\<rparr>)
            2) ''AA'' ''AA'' ''AA'' = Inl AssertionFailure"
  by code_simp

subsection \<open>A query that occurs in the first reference\<close>

text \<open>
  The inner loop writes the cells 1 to \<open>querySize\<close> of \<^verbatim>\<open>*thisSV\<close> and column
  \<open>refIndex + 1\<close> of the pointer matrix; what a cell holds before does not matter.
\<close>

lemma queryLoop_char:
  assumes cell: "\<And>e a b c h. cell e a b c h = (fs e a b c, fp e a b c)"
  shows "k + length qs < length this \<Longrightarrow>
     queryLoop cell rs ri prev qs k (this, pm) = (this', pm') \<Longrightarrow>
        length this' = length this \<and>
        (\<forall>j \<le> k. this' ! j = this ! j) \<and>
        (\<forall>j < length qs. this' ! Suc (k + j) =
            fs (qs ! j = rs) (prev ! (k + j)) (prev ! Suc (k + j)) (this' ! (k + j))) \<and>
        (\<forall>q r. pm' q r =
            (if r = Suc ri \<and> k < q \<and> q \<le> k + length qs
             then fp (qs ! (q - Suc k) = rs) (prev ! (q - 1)) (prev ! q) (this' ! (q - 1))
             else pm q r))"
proof (induction qs arbitrary: k this pm)
  case Nil
  then show ?case by auto
next
  case (Cons qsym qs)
  let ?hs = "fs (qsym = rs) (prev ! k) (prev ! Suc k) (this ! k)"
  let ?hp = "fp (qsym = rs) (prev ! k) (prev ! Suc k) (this ! k)"
  let ?this1 = "this[Suc k := ?hs]"
  let ?pm1 = "PtrMat_set pm (Suc k) (Suc ri) ?hp"
  have step: "cell (qsym = rs) (prev ! k) (prev ! Suc k) (this ! k)
      (this ! Suc k, pm (Suc k) (Suc ri)) = (?hs, ?hp)"
    by (rule cell)
  from Cons.prems(2) have run: "queryLoop cell rs ri prev qs (Suc k) (?this1, ?pm1) = (this', pm')"
    by (simp add: step)
  from Cons.prems(1) have len: "Suc k + length qs < length ?this1" by simp
  note ih = Cons.IH [OF len run]
  from ih have l: "length this' = length this" by simp
  from ih have low: "\<forall>j \<le> Suc k. this' ! j = ?this1 ! j" by simp
  from ih have cells: "\<forall>j < length qs. this' ! Suc (Suc k + j) =
            fs (qs ! j = rs) (prev ! (Suc k + j)) (prev ! Suc (Suc k + j)) (this' ! (Suc k + j))"
    by simp
  from ih have ptrs: "\<forall>q r. pm' q r =
            (if r = Suc ri \<and> Suc k < q \<and> q \<le> Suc k + length qs
             then fp (qs ! (q - Suc (Suc k)) = rs) (prev ! (q - 1)) (prev ! q) (this' ! (q - 1))
             else ?pm1 q r)"
    by simp
  from Cons.prems(1) have sk: "Suc k < length this" by simp
  have at_k: "this' ! k = this ! k"
    using low by simp
  have at_sk: "this' ! Suc k = ?hs"
    using low sk by simp
  have c1: "\<forall>j \<le> k. this' ! j = this ! j"
    using low by simp
  have c2: "\<forall>j < length (qsym # qs). this' ! Suc (k + j) =
            fs ((qsym # qs) ! j = rs) (prev ! (k + j)) (prev ! Suc (k + j)) (this' ! (k + j))"
  proof (intro allI impI)
    fix j assume "j < length (qsym # qs)"
    show "this' ! Suc (k + j) =
            fs ((qsym # qs) ! j = rs) (prev ! (k + j)) (prev ! Suc (k + j)) (this' ! (k + j))"
    proof (cases j)
      case 0
      then show ?thesis by (simp add: at_k at_sk)
    next
      case (Suc j')
      with \<open>j < length (qsym # qs)\<close> have "j' < length qs" by simp
      with cells Suc show ?thesis by simp
    qed
  qed
  have c3: "\<forall>q r. pm' q r =
            (if r = Suc ri \<and> k < q \<and> q \<le> k + length (qsym # qs)
             then fp ((qsym # qs) ! (q - Suc k) = rs) (prev ! (q - 1)) (prev ! q) (this' ! (q - 1))
             else pm q r)"
  proof (intro allI)
    fix q r
    consider "q = Suc k" | "Suc k < q" | "q \<le> k" by linarith
    then show "pm' q r =
            (if r = Suc ri \<and> k < q \<and> q \<le> k + length (qsym # qs)
             then fp ((qsym # qs) ! (q - Suc k) = rs) (prev ! (q - 1)) (prev ! q) (this' ! (q - 1))
             else pm q r)"
    proof cases
      case 1
      then show ?thesis using ptrs by (simp add: PtrMat_set_def at_k)
    next
      case 2
      then have "(qsym # qs) ! (q - Suc k) = qs ! (q - Suc (Suc k))"
        by (simp add: nth_Cons')
      with 2 show ?thesis using ptrs by (simp add: PtrMat_set_def)
    next
      case 3
      then show ?thesis using ptrs by (simp add: PtrMat_set_def)
    qed
  qed
  from l c1 c2 c3 show ?case by blast
qed

lemma refStep_char:
  assumes cell: "\<And>e a b c h. cell e a b c h = (fs e a b c, fp e a b c)"
    and lt: "length thisSV = Suc (length query)" and lp: "length prevSV = Suc (length query)"
  shows "\<exists>T' pm'.
      refStep cell query rs i (thisSV, prevSV, pm, bt) =
        (T', thisSV, pm', updateBackTrace (match (T' ! length query)) (Suc i) (length query) bt) \<and>
      length T' = Suc (length query) \<and>
      T' ! 0 = (prevSV ! 0)\<lparr>match := 0, del := badVal, ins := badVal\<rparr> \<and>
      (\<forall>q < length query. T' ! Suc q =
          fs (query ! q = rs) (thisSV ! q) (thisSV ! Suc q) (T' ! q)) \<and>
      (\<forall>q r. pm' q r =
          (if r = Suc i \<and> 0 < q \<and> q \<le> length query
           then fp (query ! (q - 1) = rs) (thisSV ! (q - 1)) (thisSV ! q) (T' ! (q - 1))
           else pm q r))"
proof -
  let ?B = "prevSV[0 := (prevSV ! 0)\<lparr>match := 0, del := badVal, ins := badVal\<rparr>]"
  obtain T' pm' where run: "queryLoop cell rs i thisSV query 0 (?B, pm) = (T', pm')"
    by (cases "queryLoop cell rs i thisSV query 0 (?B, pm)")
  have len: "0 + length query < length ?B" using lp by simp
  note ch = queryLoop_char [of cell fs fp, OF cell len run]
  have st: "refStep cell query rs i (thisSV, prevSV, pm, bt) =
        (T', thisSV, pm', updateBackTrace (match (T' ! length query)) (Suc i) (length query) bt)"
    by (simp add: refStep_def run)
  from ch have l: "length T' = Suc (length query)" using lp by simp
  from ch have z: "T' ! 0 = (prevSV ! 0)\<lparr>match := 0, del := badVal, ins := badVal\<rparr>"
    using lp by simp
  from ch have c: "\<forall>q < length query. T' ! Suc q =
          fs (query ! q = rs) (thisSV ! q) (thisSV ! Suc q) (T' ! q)"
    by simp
  from ch have p: "\<forall>q r. pm' q r =
          (if r = Suc i \<and> 0 < q \<and> q \<le> length query
           then fp (query ! (q - 1) = rs) (thisSV ! (q - 1)) (thisSV ! q) (T' ! (q - 1))
           else pm q r)"
    by simp
  from st l z c p show ?thesis by blast
qed



lemma updateCell1_eq:
  "updateCell1 sc js e sM sD sI h =
    (\<lparr>match = max (max (match sM) (del sM)) (ins sM) + (if e then s_match sc else s_mismatch sc),
      del = max (max (match sD + s_open sc) (del sD)) (ins sD) + s_extend sc + s_extend sc,
      ins = max (max (match sI + s_open sc) (del sI)) (ins sI) + s_extend sc,
      jump = max (max (max (match sD + js) badVal) (ins sD + js)) (jump sD)\<rparr>,
     \<lparr>p_match = snd (max3 (match sM) (del sM) (ins sM)),
      p_del = snd (max3 (match sD + s_open sc) (del sD) (ins sD)),
      p_ins = snd (max3 (match sI + s_open sc) (del sI) (ins sI)),
      p_jump = snd (max4 (match sD + js) badVal (ins sD + js) (jump sD))\<rparr>)"
proof -
  obtain hs hp where h: "h = (hs, hp)" by (cases h)
  show ?thesis
    unfolding h by (cases hs, cases hp) (simp add: updateCell1_def Let_def split_beta fst_max3 fst_max4)
qed

lemma updateCell2_eq:
  "updateCell2 sc e sM sD sI h =
    (\<lparr>match = max (max (max (match sM) (del sM)) (ins sM)) (jump sM)
               + (if e then s_match sc else s_mismatch sc),
      del = max (max (match sD + s_open sc) (del sD)) (ins sD) + s_extend sc,
      ins = max (max (max (match sI + s_open sc) (del sI)) (ins sI)) (jump sI) + s_extend sc,
      jump = jump sD\<rparr>,
     \<lparr>p_match = snd (max4 (match sM) (del sM) (ins sM) (jump sM)),
      p_del = snd (max3 (match sD + s_open sc) (del sD) (ins sD)),
      p_ins = snd (max4 (match sI + s_open sc) (del sI) (ins sI) (jump sI)),
      p_jump = AlignState_JUMP\<rparr>)"
proof -
  obtain hs hp where h: "h = (hs, hp)" by (cases h)
  show ?thesis
    unfolding h by (cases hs, cases hp) (simp add: updateCell2_def Let_def split_beta fst_max3 fst_max4)
qed

text \<open>A row of pass 1 keeps the bounds, and a cell with a full score has a predecessor with one.\<close>

lemma int_Suc_mult: "int (Suc q) * m = int q * m + m"
  by (simp add: algebra_simps)

lemma row_boundedD:
  "row_bounded sc T \<Longrightarrow> q < length T \<Longrightarrow>
     match (T ! q) \<le> int q * s_match sc \<and> del (T ! q) < int q * s_match sc \<and>
     ins (T ! q) < int q * s_match sc"
  by (simp add: row_bounded_def)

lemma row1_bounded:
  assumes ok: "scores_ok sc" and lA: "length A = Suc (length query)"
    and bA: "row_bounded sc A" and row: "pass1_row sc query rs A T"
  shows "row_bounded sc T"
proof -
  let ?M = "s_match sc"
  have lT: "length T = Suc (length query)" using row by (simp add: pass1_row_def)
  have "q \<le> length query \<Longrightarrow> match (T ! q) \<le> int q * ?M \<and> del (T ! q) < int q * ?M \<and>
        ins (T ! q) < int q * ?M" for q
  proof (induction q)
    case 0
    with row show ?case by (simp add: pass1_row_def badVal_def)
  next
    case (Suc q)
    then have q: "q < length query" by simp
    with Suc.IH have ih: "match (T ! q) \<le> int q * ?M" "del (T ! q) < int q * ?M"
        "ins (T ! q) < int q * ?M" by simp_all
    from bA lA q have a: "match (A ! q) \<le> int q * ?M" "del (A ! q) < int q * ?M"
        "ins (A ! q) < int q * ?M"
      by (simp_all add: row_bounded_def)
    from row_boundedD [OF bA, of "Suc q"] lA q
    have b: "match (A ! Suc q) \<le> int (Suc q) * ?M" "del (A ! Suc q) < int (Suc q) * ?M"
        "ins (A ! Suc q) < int (Suc q) * ?M"
      by (simp_all del: of_nat_Suc)
    from row q have m: "match (T ! Suc q) = max (max (match (A ! q)) (del (A ! q))) (ins (A ! q))
            + (if query ! q = rs then ?M else s_mismatch sc)"
      and d: "del (T ! Suc q) = max (max (match (A ! Suc q) + s_open sc) (del (A ! Suc q))) (ins (A ! Suc q))
            + s_extend sc + s_extend sc"
      and i: "ins (T ! Suc q) = max (max (match (T ! q) + s_open sc) (del (T ! q))) (ins (T ! q))
            + s_extend sc"
      by (simp_all add: pass1_row_def)
    from ok have s: "0 \<le> ?M" "s_mismatch sc < ?M" "s_open sc \<le> 0" "s_extend sc < 0"
      by (simp_all add: scores_ok_def)
    have "match (T ! Suc q) \<le> int (Suc q) * ?M"
      unfolding m int_Suc_mult using a s by auto
    moreover have "del (T ! Suc q) < int (Suc q) * ?M"
      unfolding d using b s by auto
    moreover have "ins (T ! Suc q) < int (Suc q) * ?M"
      unfolding i int_Suc_mult using ih s by auto
    ultimately show ?case by simp
  qed
  then show ?thesis by (simp add: row_bounded_def lT)
qed



lemma refStep1_row:
  assumes lt: "length thisSV = Suc (length query)" and lp: "length prevSV = Suc (length query)"
  shows "\<exists>T' pm'.
      refStep (updateCell1 sc js) query rs i (thisSV, prevSV, pm, bt) =
        (T', thisSV, pm', updateBackTrace (match (T' ! length query)) (Suc i) (length query) bt) \<and>
      pass1_row sc query rs thisSV T' \<and> jump (T' ! 0) = jump (prevSV ! 0) \<and>
      (\<forall>q. 0 < q \<longrightarrow> q \<le> length query \<longrightarrow>
          p_match (pm' q (Suc i)) =
            snd (max3 (match (thisSV ! (q - 1))) (del (thisSV ! (q - 1))) (ins (thisSV ! (q - 1))))) \<and>
      (\<forall>q r. r \<noteq> Suc i \<longrightarrow> pm' q r = pm q r)"
proof -
  from refStep_char [of "updateCell1 sc js" _ _ thisSV query prevSV rs i pm bt,
      OF updateCell1_eq lt lp]
  obtain T' pm' where
    st: "refStep (updateCell1 sc js) query rs i (thisSV, prevSV, pm, bt) =
        (T', thisSV, pm', updateBackTrace (match (T' ! length query)) (Suc i) (length query) bt)"
    and l: "length T' = Suc (length query)"
    and z: "T' ! 0 = (prevSV ! 0)\<lparr>match := 0, del := badVal, ins := badVal\<rparr>"
    and c: "\<forall>q < length query. T' ! Suc q =
       \<lparr>match = max (max (match (thisSV ! q)) (del (thisSV ! q))) (ins (thisSV ! q))
                 + (if query ! q = rs then s_match sc else s_mismatch sc),
        del = max (max (match (thisSV ! Suc q) + s_open sc) (del (thisSV ! Suc q))) (ins (thisSV ! Suc q))
                 + s_extend sc + s_extend sc,
        ins = max (max (match (T' ! q) + s_open sc) (del (T' ! q))) (ins (T' ! q)) + s_extend sc,
        jump = max (max (max (match (thisSV ! Suc q) + js) badVal) (ins (thisSV ! Suc q) + js))
                 (jump (thisSV ! Suc q))\<rparr>"
    and p: "\<forall>q r. pm' q r =
          (if r = Suc i \<and> 0 < q \<and> q \<le> length query
           then \<lparr>p_match = snd (max3 (match (thisSV ! (q - 1))) (del (thisSV ! (q - 1))) (ins (thisSV ! (q - 1)))),
                 p_del = snd (max3 (match (thisSV ! q) + s_open sc) (del (thisSV ! q)) (ins (thisSV ! q))),
                 p_ins = snd (max3 (match (T' ! (q - 1)) + s_open sc) (del (T' ! (q - 1))) (ins (T' ! (q - 1)))),
                 p_jump = snd (max4 (match (thisSV ! q) + js) badVal (ins (thisSV ! q) + js) (jump (thisSV ! q)))\<rparr>
           else pm q r)"
    by blast
  have row: "pass1_row sc query rs thisSV T'"
    unfolding pass1_row_def using l z c by simp
  have j: "jump (T' ! 0) = jump (prevSV ! 0)" using z by simp
  have p1: "\<forall>q. 0 < q \<longrightarrow> q \<le> length query \<longrightarrow>
          p_match (pm' q (Suc i)) =
            snd (max3 (match (thisSV ! (q - 1))) (del (thisSV ! (q - 1))) (ins (thisSV ! (q - 1))))"
    using p by simp
  have p2: "\<forall>q r. r \<noteq> Suc i \<longrightarrow> pm' q r = pm q r"
    using p by simp
  from st row j p1 p2 show ?thesis by blast
qed

text \<open>The invariant of pass 1.\<close>

lemma match_chain_0 [simp]: "match_chain pm 0 r"
  by (simp add: match_chain_def)




text \<open>The start of a pass, and the invariant of pass 2.\<close>

lemma foldl_update_upt:
  "n \<le> length v \<Longrightarrow>
     length (foldl (\<lambda>sv i. sv[i := f i]) v [0..<n]) = length v \<and>
     (\<forall>q < n. foldl (\<lambda>sv i. sv[i := f i]) v [0..<n] ! q = f q)"
proof (induction n)
  case 0
  then show ?case by simp
next
  case (Suc n)
  then have ih: "length (foldl (\<lambda>sv i. sv[i := f i]) v [0..<n]) = length v"
    "\<forall>q < n. foldl (\<lambda>sv i. sv[i := f i]) v [0..<n] ! q = f q"
    by simp_all
  from Suc.prems have n: "n < length v" by simp
  show ?case
    using ih n by (auto simp: nth_list_update less_Suc_eq)
qed

lemma ScoreType_of_id: "- (2 ^ 31) \<le> x \<Longrightarrow> x < 2 ^ 31 \<Longrightarrow> ScoreType_of x = x"
  by (simp add: ScoreType_of_def)

lemma scores_in_range_mult:
  assumes fit: "scores_in_range sc js Q" and q: "q \<le> Q"
  shows "- (2 ^ 31) \<le> int q * s_mismatch sc" and "int q * s_mismatch sc < 2 ^ 31"
    and "int q * s_match sc < 2 ^ 31"
proof -
  define b where "b = score_bound sc js"
  from fit have lim: "(int Q + 3) * b + 10000 < 2 ^ 31"
    by (simp only: scores_in_range_def b_def)
  have b0: "0 \<le> b" and bm: "abs (s_match sc) \<le> b" and bx: "abs (s_mismatch sc) \<le> b"
    by (simp_all add: b_def score_bound_def le_max_iff_disj)
  have "int q * b \<le> int Q * b"
    using q b0 by (intro mult_right_mono) simp_all
  also have "\<dots> \<le> (int Q + 3) * b + 10000"
    using b0 by (simp add: algebra_simps)
  finally have qb: "int q * b < 2 ^ 31" using lim by simp
  have "abs (int q * s_mismatch sc) \<le> int q * b"
    unfolding abs_mult using bx by (simp add: mult_left_mono)
  with qb show "- (2 ^ 31) \<le> int q * s_mismatch sc" and "int q * s_mismatch sc < 2 ^ 31"
    by simp_all
  have "abs (int q * s_match sc) \<le> int q * b"
    unfolding abs_mult using bm by (simp add: mult_left_mono)
  with qb show "int q * s_match sc < 2 ^ 31" by simp
qed

lemma initScores_char:
  assumes "length v = Suc Q"
  shows "length (initScores sc Q v) = Suc Q"
    and "q \<le> Q \<Longrightarrow> initScores sc Q v ! q =
      \<lparr>match = ScoreType_of (int q * s_mismatch sc), del = badVal, ins = badVal, jump = badVal\<rparr>"
  using foldl_update_upt [of "Suc Q" v
      "\<lambda>queryIndex. \<lparr>match = ScoreType_of (int queryIndex * s_mismatch sc), del = badVal,
         ins = badVal, jump = badVal\<rparr>"]
    assms
  by (simp_all add: initScores_def)

lemma initScores_in_range:
  assumes lv: "length v = Suc Q" and fit: "scores_in_range sc js Q" and q: "q \<le> Q"
  shows "initScores sc Q v ! q =
      \<lparr>match = int q * s_mismatch sc, del = badVal, ins = badVal, jump = badVal\<rparr>"
  using initScores_char(2) [OF lv q, where sc = sc] scores_in_range_mult(1,2) [OF fit q]
  by (simp add: ScoreType_of_id)

lemma length_resize_scores [simp]: "length (resize_scores n sv) = n"
  by (simp add: resize_scores_def)

lemma resize_scores_0:
  "resize_scores (Suc n) sv ! 0 = (if sv = [] then ScoreVal_init else sv ! 0)"
  by (cases sv) (simp_all add: resize_scores_def)

lemma row_bounded2D:
  "row_bounded2 sc T \<Longrightarrow> q < length T \<Longrightarrow>
     match (T ! q) \<le> int q * s_match sc \<and> del (T ! q) \<le> int q * s_match sc \<and>
     ins (T ! q) \<le> int q * s_match sc \<and> jump (T ! q) \<le> int q * s_match sc"
  by (simp add: row_bounded2_def)

lemma row2_bounded:
  assumes ok: "scores_ok sc" and lA: "length A = Suc (length query)"
    and bA: "row_bounded2 sc A" and row: "pass2_row sc query rs A T" and j0: "jump (T ! 0) \<le> 0"
  shows "row_bounded2 sc T"
proof -
  let ?M = "s_match sc"
  have lT: "length T = Suc (length query)" using row by (simp add: pass2_row_def)
  from ok have s: "0 \<le> ?M" "s_mismatch sc < ?M" "s_open sc \<le> 0" "s_extend sc < 0"
    by (simp_all add: scores_ok_def)
  have "q \<le> length query \<Longrightarrow> match (T ! q) \<le> int q * ?M \<and> del (T ! q) \<le> int q * ?M \<and>
        ins (T ! q) \<le> int q * ?M \<and> jump (T ! q) \<le> int q * ?M" for q
  proof (induction q)
    case 0
    with row j0 show ?case by (simp add: pass2_row_def badVal_def)
  next
    case (Suc q)
    then have q: "q < length query" by simp
    with Suc.IH have ih: "match (T ! q) \<le> int q * ?M" "del (T ! q) \<le> int q * ?M"
        "ins (T ! q) \<le> int q * ?M" "jump (T ! q) \<le> int q * ?M" by simp_all
    from row_bounded2D [OF bA, of q] lA q
    have a: "match (A ! q) \<le> int q * ?M" "del (A ! q) \<le> int q * ?M"
        "ins (A ! q) \<le> int q * ?M" "jump (A ! q) \<le> int q * ?M"
      by simp_all
    from row_bounded2D [OF bA, of "Suc q"] lA q
    have b: "match (A ! Suc q) \<le> int (Suc q) * ?M" "del (A ! Suc q) \<le> int (Suc q) * ?M"
        "ins (A ! Suc q) \<le> int (Suc q) * ?M" "jump (A ! Suc q) \<le> int (Suc q) * ?M"
      by (simp_all del: of_nat_Suc)
    from row q have m: "match (T ! Suc q) =
            max (max (max (match (A ! q)) (del (A ! q))) (ins (A ! q))) (jump (A ! q))
            + (if query ! q = rs then ?M else s_mismatch sc)"
      and d: "del (T ! Suc q) = max (max (match (A ! Suc q) + s_open sc) (del (A ! Suc q))) (ins (A ! Suc q))
            + s_extend sc"
      and i: "ins (T ! Suc q) =
            max (max (max (match (T ! q) + s_open sc) (del (T ! q))) (ins (T ! q))) (jump (T ! q))
            + s_extend sc"
      and j: "jump (T ! Suc q) = jump (A ! Suc q)"
      by (simp_all add: pass2_row_def)
    have "match (T ! Suc q) \<le> int (Suc q) * ?M"
      unfolding m int_Suc_mult using a s by auto
    moreover have "del (T ! Suc q) \<le> int (Suc q) * ?M"
      unfolding d using b s by auto
    moreover have "ins (T ! Suc q) \<le> int (Suc q) * ?M"
      unfolding i int_Suc_mult using ih s by auto
    moreover have "jump (T ! Suc q) \<le> int (Suc q) * ?M"
      unfolding j using b by simp
    ultimately show ?case by simp
  qed
  then show ?thesis by (simp add: row_bounded2_def lT)
qed

lemma row2_lower:
  assumes ok: "scores_ok sc" and lA: "length A = Suc (length query)"
    and lo: "row_lower sc A" and row: "pass2_row sc query rs A T"
  shows "row_lower sc T"
  unfolding row_lower_def
proof (intro allI impI)
  fix q assume "q < length T"
  with row have q: "q \<le> length query" by (simp add: pass2_row_def)
  from ok have s: "s_mismatch sc < s_match sc" by (simp add: scores_ok_def)
  show "int q * s_mismatch sc \<le> match (T ! q)"
  proof (cases q)
    case 0
    with row show ?thesis by (simp add: pass2_row_def)
  next
    case (Suc q')
    with q have q': "q' < length query" by simp
    from lo lA q' have a: "int q' * s_mismatch sc \<le> match (A ! q')"
      by (simp add: row_lower_def)
    from row q' have m: "match (T ! Suc q') =
            max (max (max (match (A ! q')) (del (A ! q'))) (ins (A ! q'))) (jump (A ! q'))
            + (if query ! q' = rs then s_match sc else s_mismatch sc)"
      by (simp add: pass2_row_def)
    have "int (Suc q') * s_mismatch sc \<le> match (T ! Suc q')"
      unfolding m int_Suc_mult using a s by auto
    with Suc show ?thesis by simp
  qed
qed

lemma refStep2_row:
  assumes lt: "length thisSV = Suc (length query)" and lp: "length prevSV = Suc (length query)"
  shows "\<exists>T' pm'.
      refStep (updateCell2 sc) query rs i (thisSV, prevSV, pm, bt) =
        (T', thisSV, pm', updateBackTrace (match (T' ! length query)) (Suc i) (length query) bt) \<and>
      pass2_row sc query rs thisSV T' \<and> jump (T' ! 0) = jump (prevSV ! 0)"
proof -
  from refStep_char [of "updateCell2 sc" _ _ thisSV query prevSV rs i pm bt,
      OF updateCell2_eq lt lp]
  obtain T' pm' where
    st: "refStep (updateCell2 sc) query rs i (thisSV, prevSV, pm, bt) =
        (T', thisSV, pm', updateBackTrace (match (T' ! length query)) (Suc i) (length query) bt)"
    and l: "length T' = Suc (length query)"
    and z: "T' ! 0 = (prevSV ! 0)\<lparr>match := 0, del := badVal, ins := badVal\<rparr>"
    and c: "\<forall>q < length query. T' ! Suc q =
       \<lparr>match = max (max (max (match (thisSV ! q)) (del (thisSV ! q))) (ins (thisSV ! q))) (jump (thisSV ! q))
                 + (if query ! q = rs then s_match sc else s_mismatch sc),
        del = max (max (match (thisSV ! Suc q) + s_open sc) (del (thisSV ! Suc q))) (ins (thisSV ! Suc q))
                 + s_extend sc,
        ins = max (max (max (match (T' ! q) + s_open sc) (del (T' ! q))) (ins (T' ! q))) (jump (T' ! q))
                 + s_extend sc,
        jump = jump (thisSV ! Suc q)\<rparr>"
    by blast
  have row: "pass2_row sc query rs thisSV T'"
    unfolding pass2_row_def using l z c by simp
  have j: "jump (T' ! 0) = jump (prevSV ! 0)" using z by simp
  from st row j show ?thesis by blast
qed







lemma row_bounded2_init:
  assumes ok: "scores_ok sc" and fit: "scores_in_range sc js Q" and lv: "length v = Suc Q"
  shows "row_bounded2 sc (initScores sc Q v)"
  unfolding row_bounded2_def
proof (intro allI impI)
  fix q assume "q < length (initScores sc Q v)"
  then have q: "q \<le> Q" using initScores_char(1) [OF lv, where sc = sc] by simp
  from ok have s: "0 \<le> s_match sc" "s_mismatch sc < s_match sc" by (simp_all add: scores_ok_def)
  then have "int q * s_mismatch sc \<le> int q * s_match sc"
    by (intro mult_left_mono) simp_all
  moreover from s have "0 \<le> int q * s_match sc" by simp
  ultimately show "match (initScores sc Q v ! q) \<le> int q * s_match sc \<and>
      del (initScores sc Q v ! q) \<le> int q * s_match sc \<and>
      ins (initScores sc Q v ! q) \<le> int q * s_match sc \<and>
      jump (initScores sc Q v ! q) \<le> int q * s_match sc"
    using initScores_in_range [OF lv fit q] by (simp add: badVal_def)
qed

lemma row_lower_init:
  assumes fit: "scores_in_range sc js Q" and lv: "length v = Suc Q"
  shows "row_lower sc (initScores sc Q v)"
  unfolding row_lower_def
proof (intro allI impI)
  fix q assume "q < length (initScores sc Q v)"
  then have q: "q \<le> Q" using initScores_char(1) [OF lv, where sc = sc] by simp
  from initScores_in_range [OF lv fit q]
  show "int q * s_mismatch sc \<le> match (initScores sc Q v ! q)" by simp
qed





subsection \<open>The sums of the passes stay within the range of a score\<close>

lemma score_bound_facts:
  "0 \<le> score_bound sc js" "abs (s_match sc) \<le> score_bound sc js"
  "abs (s_mismatch sc) \<le> score_bound sc js" "abs (s_open sc) \<le> score_bound sc js"
  "abs (s_extend sc) \<le> score_bound sc js" "abs js \<le> score_bound sc js"
  by (simp_all add: score_bound_def le_max_iff_disj)

lemma score_bound_sides:
  assumes "b = score_bound sc js"
  shows "- b \<le> s_match sc" "s_match sc \<le> b" "- b \<le> s_mismatch sc" "s_mismatch sc \<le> b"
    "- b \<le> s_open sc" "s_open sc \<le> b" "- b \<le> s_extend sc" "s_extend sc \<le> b"
    "- b \<le> js" "js \<le> b" "0 \<le> b"
  using score_bound_facts [where sc = sc and js = js] unfolding assms by simp_all

lemma mult_bound:
  assumes q: "q \<le> Q" and x: "abs x \<le> (b :: int)"
  shows "- (int Q * b) \<le> int q * x" and "int q * x \<le> int Q * b"
proof -
  from x have b: "0 \<le> b" by simp
  have "abs (int q * x) = int q * abs x" by (simp add: abs_mult)
  also have "\<dots> \<le> int q * b" using x by (simp add: mult_left_mono)
  also have "\<dots> \<le> int Q * b" using q b by (intro mult_right_mono) simp_all
  finally have "abs (int q * x) \<le> int Q * b" .
  then show "- (int Q * b) \<le> int q * x" and "int q * x \<le> int Q * b" by simp_all
qed

lemma max3_between:
  "l \<le> x \<Longrightarrow> x \<le> u \<Longrightarrow> y \<le> u \<Longrightarrow> z \<le> u \<Longrightarrow>
     l \<le> max (max x y) z \<and> max (max x y) z \<le> (u :: int)"
  by (simp add: le_max_iff_disj)

lemma max4_between:
  "l \<le> x \<Longrightarrow> x \<le> u \<Longrightarrow> y \<le> u \<Longrightarrow> z \<le> u \<Longrightarrow> w \<le> u \<Longrightarrow>
     l \<le> max (max (max x y) z) w \<and> max (max (max x y) z) w \<le> (u :: int)"
  by (simp add: le_max_iff_disj)

lemma between_add:
  "l \<le> m \<and> m \<le> (u :: int) \<Longrightarrow> - b \<le> g \<Longrightarrow> g \<le> b \<Longrightarrow> l - b \<le> m + g \<and> m + g \<le> u + b"
  by simp

lemma in_range_sum:
  "l \<le> m \<and> m \<le> u \<Longrightarrow> - 2147483648 \<le> l + d \<Longrightarrow> u + d < 2147483648 \<Longrightarrow> in_range (m + d)"
  by (simp add: in_range_def)

text \<open>One cell of pass 1, from the bounds on the three cells that the update reads.\<close>

lemma updateCell1_sums_in_range:
  assumes fit: "scores_in_range sc js Q" and q: "q < Q"
    and M: "int q * s_mismatch sc \<le> match sM" "match sM \<le> int q * s_match sc"
      "del sM \<le> int q * s_match sc" "ins sM \<le> int q * s_match sc"
    and D: "int (Suc q) * s_mismatch sc \<le> match sD" "match sD \<le> int (Suc q) * s_match sc"
      "del sD \<le> int (Suc q) * s_match sc" "ins sD \<le> int (Suc q) * s_match sc"
      "- ((int Q + 2) * score_bound sc js + 10000) \<le> ins sD"
    and I: "int q * s_mismatch sc \<le> match sI" "match sI \<le> int q * s_match sc"
      "del sI \<le> int q * s_match sc" "ins sI \<le> int q * s_match sc"
  shows "list_all in_range (updateCell1_sums sc js e sM sD sI)"
proof -
  define b where "b = score_bound sc js"
  define Qb where "Qb = int Q * b"
  define qX where "qX = int q * s_mismatch sc"
  define qM where "qM = int q * s_match sc"
  define rX where "rX = int (Suc q) * s_mismatch sc"
  define rM where "rM = int (Suc q) * s_match sc"
  note sb = score_bound_facts [where sc = sc and js = js, folded b_def]
  note s = score_bound_sides [OF b_def]
  have lim: "Qb + 3 * b + 10000 < 2147483648"
    using fit by (simp add: scores_in_range_def b_def Qb_def algebra_simps)
  have fl: "(int Q + 2) * score_bound sc js = Qb + 2 * b"
    by (simp add: b_def Qb_def algebra_simps)
  from q have q0: "q \<le> Q" and q1: "Suc q \<le> Q" by simp_all
  have a: "- Qb \<le> qX" "qM \<le> Qb" "- Qb \<le> rX" "rM \<le> Qb"
    unfolding qX_def qM_def rX_def rM_def Qb_def
    by (rule mult_bound [OF q0 sb(3)] mult_bound [OF q0 sb(2)]
          mult_bound [OF q1 sb(3)] mult_bound [OF q1 sb(2)])+
  note M' = M [folded qX_def qM_def] and D' = D [folded rX_def rM_def, unfolded fl]
    and I' = I [folded qX_def qM_def]
  have mM: "qX \<le> max (max (match sM) (del sM)) (ins sM) \<and>
      max (max (match sM) (del sM)) (ins sM) \<le> qM"
    using M' by (intro max3_between) simp_all
  have mD: "rX - b \<le> max (max (match sD + s_open sc) (del sD)) (ins sD) \<and>
      max (max (match sD + s_open sc) (del sD)) (ins sD) \<le> rM + b"
    using D' s by (intro max3_between) simp_all
  have mI: "qX - b \<le> max (max (match sI + s_open sc) (del sI)) (ins sI) \<and>
      max (max (match sI + s_open sc) (del sI)) (ins sI) \<le> qM + b"
    using I' s by (intro max3_between) simp_all
  have r1: "in_range (max (max (match sM) (del sM)) (ins sM) +
      (if e then s_match sc else s_mismatch sc))"
    using a lim s by (intro in_range_sum [OF mM]) (simp_all split: if_splits)
  have r2: "in_range (match sD + s_open sc)"
    using a lim s D' by (intro in_range_sum [of rX _ rM]) simp_all
  have r3: "in_range (max (max (match sD + s_open sc) (del sD)) (ins sD) + s_extend sc)"
    using a lim s by (intro in_range_sum [OF mD]) simp_all
  have r4: "in_range (match sI + s_open sc)"
    using a lim s I' by (intro in_range_sum [of qX _ qM]) simp_all
  have r5: "in_range (max (max (match sI + s_open sc) (del sI)) (ins sI) + s_extend sc)"
    using a lim s by (intro in_range_sum [OF mI]) simp_all
  have r6: "in_range (match sD + js)"
    using a lim s D' by (intro in_range_sum [of rX _ rM]) simp_all
  have r7: "in_range (ins sD + js)"
    using a lim s D' by (intro in_range_sum [of "- (Qb + 2 * b + 10000)" _ rM]) simp_all
  have mD2: "rX - b - b \<le> max (max (match sD + s_open sc) (del sD)) (ins sD) + s_extend sc \<and>
      max (max (match sD + s_open sc) (del sD)) (ins sD) + s_extend sc \<le> rM + b + b"
    using mD s(7) s(8) by (rule between_add)
  have r8: "in_range (max (max (match sD + s_open sc) (del sD)) (ins sD) + s_extend sc + s_extend sc)"
    using a lim s by (intro in_range_sum [OF mD2]) simp_all
  from r1 r2 r3 r4 r5 r6 r7 r8 show ?thesis
    by (simp add: updateCell1_sums_def fst_max3)
qed

text \<open>One cell of pass 2.\<close>

lemma updateCell2_sums_in_range:
  assumes fit: "scores_in_range sc js Q" and q: "q < Q"
    and M: "int q * s_mismatch sc \<le> match sM" "match sM \<le> int q * s_match sc"
      "del sM \<le> int q * s_match sc" "ins sM \<le> int q * s_match sc" "jump sM \<le> int q * s_match sc"
    and D: "int (Suc q) * s_mismatch sc \<le> match sD" "match sD \<le> int (Suc q) * s_match sc"
      "del sD \<le> int (Suc q) * s_match sc" "ins sD \<le> int (Suc q) * s_match sc"
    and I: "int q * s_mismatch sc \<le> match sI" "match sI \<le> int q * s_match sc"
      "del sI \<le> int q * s_match sc" "ins sI \<le> int q * s_match sc" "jump sI \<le> int q * s_match sc"
  shows "list_all in_range (updateCell2_sums sc e sM sD sI)"
proof -
  define b where "b = score_bound sc js"
  define Qb where "Qb = int Q * b"
  define qX where "qX = int q * s_mismatch sc"
  define qM where "qM = int q * s_match sc"
  define rX where "rX = int (Suc q) * s_mismatch sc"
  define rM where "rM = int (Suc q) * s_match sc"
  note sb = score_bound_facts [where sc = sc and js = js, folded b_def]
  note s = score_bound_sides [OF b_def]
  have lim: "Qb + 3 * b + 10000 < 2147483648"
    using fit by (simp add: scores_in_range_def b_def Qb_def algebra_simps)
  from q have q0: "q \<le> Q" and q1: "Suc q \<le> Q" by simp_all
  have a: "- Qb \<le> qX" "qM \<le> Qb" "- Qb \<le> rX" "rM \<le> Qb"
    unfolding qX_def qM_def rX_def rM_def Qb_def
    by (rule mult_bound [OF q0 sb(3)] mult_bound [OF q0 sb(2)]
          mult_bound [OF q1 sb(3)] mult_bound [OF q1 sb(2)])+
  note M' = M [folded qX_def qM_def] and D' = D [folded rX_def rM_def]
    and I' = I [folded qX_def qM_def]
  have mM: "qX \<le> max (max (max (match sM) (del sM)) (ins sM)) (jump sM) \<and>
      max (max (max (match sM) (del sM)) (ins sM)) (jump sM) \<le> qM"
    using M' by (intro max4_between) simp_all
  have mD: "rX - b \<le> max (max (match sD + s_open sc) (del sD)) (ins sD) \<and>
      max (max (match sD + s_open sc) (del sD)) (ins sD) \<le> rM + b"
    using D' s by (intro max3_between) simp_all
  have mI: "qX - b \<le> max (max (max (match sI + s_open sc) (del sI)) (ins sI)) (jump sI) \<and>
      max (max (max (match sI + s_open sc) (del sI)) (ins sI)) (jump sI) \<le> qM + b"
    using I' s by (intro max4_between) simp_all
  have r1: "in_range (max (max (max (match sM) (del sM)) (ins sM)) (jump sM) +
      (if e then s_match sc else s_mismatch sc))"
    using a lim s by (intro in_range_sum [OF mM]) (simp_all split: if_splits)
  have r2: "in_range (match sD + s_open sc)"
    using a lim s D' by (intro in_range_sum [of rX _ rM]) simp_all
  have r3: "in_range (max (max (match sD + s_open sc) (del sD)) (ins sD) + s_extend sc)"
    using a lim s by (intro in_range_sum [OF mD]) simp_all
  have r4: "in_range (match sI + s_open sc)"
    using a lim s I' by (intro in_range_sum [of qX _ qM]) simp_all
  have r5: "in_range (max (max (max (match sI + s_open sc) (del sI)) (ins sI)) (jump sI) +
      s_extend sc)"
    using a lim s by (intro in_range_sum [OF mI]) simp_all
  from r1 r2 r3 r4 r5 show ?thesis
    by (simp add: updateCell2_sums_def fst_max3 fst_max4)
qed

text \<open>A row of pass 1 keeps the bounds from below.\<close>

lemma row1_lower:
  assumes ok: "scores_ok sc" and lA: "length A = Suc (length query)"
    and lo: "row_lower sc A" and row: "pass1_row sc query rs A T"
  shows "row_lower sc T"
  unfolding row_lower_def
proof (intro allI impI)
  fix q assume "q < length T"
  with row have q: "q \<le> length query" by (simp add: pass1_row_def)
  from ok have s: "s_mismatch sc < s_match sc" by (simp add: scores_ok_def)
  show "int q * s_mismatch sc \<le> match (T ! q)"
  proof (cases q)
    case 0
    with row show ?thesis by (simp add: pass1_row_def)
  next
    case (Suc q')
    with q have q': "q' < length query" by simp
    from lo lA q' have a: "int q' * s_mismatch sc \<le> match (A ! q')"
      by (simp add: row_lower_def)
    from row q' have m: "match (T ! Suc q') =
            max (max (match (A ! q')) (del (A ! q'))) (ins (A ! q'))
            + (if query ! q' = rs then s_match sc else s_mismatch sc)"
      by (simp add: pass1_row_def)
    have "int (Suc q') * s_mismatch sc \<le> match (T ! Suc q')"
      unfolding m int_Suc_mult using a s by auto
    with Suc show ?thesis by simp
  qed
qed

lemma row1_ins_floor:
  assumes row: "pass1_row sc query rs A T" and lo: "row_lower sc T"
  shows "ins_floor sc js (length query) T"
  unfolding ins_floor_def
proof (intro allI impI)
  fix q assume "q < length T"
  with row have q: "q \<le> length query" and lT: "length T = Suc (length query)"
    by (simp_all add: pass1_row_def)
  define b where "b = score_bound sc js"
  define Qb where "Qb = int (length query) * b"
  note sb = score_bound_facts [where sc = sc and js = js, folded b_def]
  note s = score_bound_sides [OF b_def]
  have fl: "(int (length query) + 2) * score_bound sc js = Qb + 2 * b"
    by (simp add: b_def Qb_def algebra_simps)
  from s have Qb0: "0 \<le> Qb" by (simp add: Qb_def)
  show "- ((int (length query) + 2) * score_bound sc js + 10000) \<le> ins (T ! q)"
  proof (cases q)
    case 0
    with row have "ins (T ! q) = - 10000" by (simp add: pass1_row_def badVal_def)
    with Qb0 s show ?thesis unfolding fl by simp
  next
    case (Suc q')
    with q have q': "q' < length query" by simp
    from q' have le: "q' \<le> length query" by simp
    from lo lT q' have a: "int q' * s_mismatch sc \<le> match (T ! q')"
      by (simp add: row_lower_def)
    from mult_bound(1) [OF le sb(3)] have c: "- Qb \<le> int q' * s_mismatch sc"
      by (simp add: Qb_def)
    from row q' have i: "ins (T ! Suc q') =
        max (max (match (T ! q') + s_open sc) (del (T ! q'))) (ins (T ! q')) + s_extend sc"
      by (simp add: pass1_row_def)
    have "match (T ! q') + s_open sc \<le> max (max (match (T ! q') + s_open sc) (del (T ! q'))) (ins (T ! q'))"
      by simp
    with a c s have "- (Qb + 2 * b) \<le> ins (T ! Suc q')"
      unfolding i by linarith
    with Suc show ?thesis unfolding fl by simp
  qed
qed

lemma list_all_concat_upt:
  "(\<And>q. q < n \<Longrightarrow> list_all P (f q)) \<Longrightarrow> list_all P (concat (map f [0..<n]))"
  by (auto simp: list_all_iff)

text \<open>A step of the outer loop keeps the bounds, and its sums are within the range.\<close>

lemma range1_step:
  assumes ok: "scores_ok sc" and fit: "scores_in_range sc js (length query)"
    and inv: "range1_inv sc js (length query) st"
  shows "range1_inv sc js (length query) (refStep (updateCell1 sc js) query rs i st) \<and>
     (case refStep (updateCell1 sc js) query rs i st of (thisSV, prevSV, pm, bt) \<Rightarrow>
        list_all in_range
          (concat (map (\<lambda>q. updateCell1_sums sc js (query ! q = rs)
                          (prevSV ! q) (prevSV ! Suc q) (thisSV ! q)) [0..<length query])))"
proof -
  let ?Q = "length query"
  obtain T P pm bt where st: "st = (T, P, pm, bt)" by (cases st) auto
  from inv have lT: "length T = Suc ?Q" and lP: "length P = Suc ?Q"
    and jT: "jump (T ! 0) \<le> 0" and jP: "jump (P ! 0) \<le> 0"
    and bT: "row_bounded sc T" and loT: "row_lower sc T" and fT: "ins_floor sc js ?Q T"
    by (simp_all add: range1_inv_def st)
  from refStep1_row [OF lT lP, of sc js rs i pm bt]
  obtain T' pm' where
    run: "refStep (updateCell1 sc js) query rs i (T, P, pm, bt) =
        (T', T, pm', updateBackTrace (match (T' ! ?Q)) (Suc i) ?Q bt)"
    and row: "pass1_row sc query rs T T'" and j0: "jump (T' ! 0) = jump (P ! 0)"
    by blast
  from row have lT': "length T' = Suc ?Q" by (simp add: pass1_row_def)
  have bT': "row_bounded sc T'" using ok lT bT row by (rule row1_bounded)
  have loT': "row_lower sc T'" using ok lT loT row by (rule row1_lower)
  have fT': "ins_floor sc js ?Q T'" using row loT' by (rule row1_ins_floor)
  have sums: "list_all in_range (updateCell1_sums sc js (query ! q = rs) (T ! q) (T ! Suc q) (T' ! q))"
    if q: "q < ?Q" for q
  proof (rule updateCell1_sums_in_range [OF fit q])
    from row_boundedD [OF bT, of q] lT q
    show "match (T ! q) \<le> int q * s_match sc" "del (T ! q) \<le> int q * s_match sc"
      "ins (T ! q) \<le> int q * s_match sc" by simp_all
    from row_boundedD [OF bT, of "Suc q"] lT q
    show "match (T ! Suc q) \<le> int (Suc q) * s_match sc" "del (T ! Suc q) \<le> int (Suc q) * s_match sc"
      "ins (T ! Suc q) \<le> int (Suc q) * s_match sc" by (simp_all del: of_nat_Suc)
    from row_boundedD [OF bT', of q] lT' q
    show "match (T' ! q) \<le> int q * s_match sc" "del (T' ! q) \<le> int q * s_match sc"
      "ins (T' ! q) \<le> int q * s_match sc" by simp_all
    from loT lT q show "int q * s_mismatch sc \<le> match (T ! q)"
      by (simp add: row_lower_def)
    from loT lT q show "int (Suc q) * s_mismatch sc \<le> match (T ! Suc q)"
      by (simp add: row_lower_def del: of_nat_Suc)
    from loT' lT' q show "int q * s_mismatch sc \<le> match (T' ! q)"
      by (simp add: row_lower_def)
    from fT lT q show "- ((int ?Q + 2) * score_bound sc js + 10000) \<le> ins (T ! Suc q)"
      by (simp add: ins_floor_def)
  qed
  from j0 jP have "jump (T' ! 0) \<le> 0" by simp
  with lT' lT jT bT' loT' fT' have "range1_inv sc js ?Q (T', T, pm', updateBackTrace (match (T' ! ?Q)) (Suc i) ?Q bt)"
    by (simp add: range1_inv_def)
  moreover have "list_all in_range
          (concat (map (\<lambda>q. updateCell1_sums sc js (query ! q = rs)
                          (T ! q) (T ! Suc q) (T' ! q)) [0..<?Q]))"
    using sums by (rule list_all_concat_upt)
  ultimately show ?thesis unfolding st run by simp
qed

lemma range2_step:
  assumes ok: "scores_ok sc" and fit: "scores_in_range sc js (length query)"
    and inv: "range2_inv sc (length query) st"
  shows "range2_inv sc (length query) (refStep (updateCell2 sc) query rs i st) \<and>
     (case refStep (updateCell2 sc) query rs i st of (thisSV, prevSV, pm, bt) \<Rightarrow>
        list_all in_range
          (concat (map (\<lambda>q. updateCell2_sums sc (query ! q = rs)
                          (prevSV ! q) (prevSV ! Suc q) (thisSV ! q)) [0..<length query])))"
proof -
  let ?Q = "length query"
  obtain T P pm bt where st: "st = (T, P, pm, bt)" by (cases st) auto
  from inv have lT: "length T = Suc ?Q" and lP: "length P = Suc ?Q"
    and bT: "row_bounded2 sc T" and loT: "row_lower sc T" and jP: "jump (P ! 0) \<le> 0"
    by (simp_all add: range2_inv_def st)
  from refStep2_row [OF lT lP, of sc rs i pm bt]
  obtain T' pm' where
    run: "refStep (updateCell2 sc) query rs i (T, P, pm, bt) =
        (T', T, pm', updateBackTrace (match (T' ! ?Q)) (Suc i) ?Q bt)"
    and row: "pass2_row sc query rs T T'" and j0: "jump (T' ! 0) = jump (P ! 0)"
    by blast
  from row have lT': "length T' = Suc ?Q" by (simp add: pass2_row_def)
  from j0 jP have "jump (T' ! 0) \<le> 0" by simp
  with ok lT bT row have bT': "row_bounded2 sc T'" by (rule row2_bounded)
  have loT': "row_lower sc T'" using ok lT loT row by (rule row2_lower)
  have sums: "list_all in_range (updateCell2_sums sc (query ! q = rs) (T ! q) (T ! Suc q) (T' ! q))"
    if q: "q < ?Q" for q
  proof (rule updateCell2_sums_in_range [OF fit q])
    from row_bounded2D [OF bT, of q] lT q
    show "match (T ! q) \<le> int q * s_match sc" "del (T ! q) \<le> int q * s_match sc"
      "ins (T ! q) \<le> int q * s_match sc" "jump (T ! q) \<le> int q * s_match sc" by simp_all
    from row_bounded2D [OF bT, of "Suc q"] lT q
    show "match (T ! Suc q) \<le> int (Suc q) * s_match sc" "del (T ! Suc q) \<le> int (Suc q) * s_match sc"
      "ins (T ! Suc q) \<le> int (Suc q) * s_match sc" by (simp_all del: of_nat_Suc)
    from row_bounded2D [OF bT', of q] lT' q
    show "match (T' ! q) \<le> int q * s_match sc" "del (T' ! q) \<le> int q * s_match sc"
      "ins (T' ! q) \<le> int q * s_match sc" "jump (T' ! q) \<le> int q * s_match sc" by simp_all
    from loT lT q show "int q * s_mismatch sc \<le> match (T ! q)"
      by (simp add: row_lower_def)
    from loT lT q show "int (Suc q) * s_mismatch sc \<le> match (T ! Suc q)"
      by (simp add: row_lower_def del: of_nat_Suc)
    from loT' lT' q show "int q * s_mismatch sc \<le> match (T' ! q)"
      by (simp add: row_lower_def)
  qed
  from row_bounded2D [OF bT, of 0] lT have "jump (T ! 0) \<le> 0" by simp
  with lT' lT bT' loT' have "range2_inv sc ?Q (T', T, pm', updateBackTrace (match (T' ! ?Q)) (Suc i) ?Q bt)"
    by (simp add: range2_inv_def)
  moreover have "list_all in_range
          (concat (map (\<lambda>q. updateCell2_sums sc (query ! q = rs)
                          (T ! q) (T ! Suc q) (T' ! q)) [0..<?Q]))"
    using sums by (rule list_all_concat_upt)
  ultimately show ?thesis unfolding st run by simp
qed

text \<open>Hence all the sums of a pass are within the range, and the pass keeps the bounds.\<close>

lemma refLoop_sums1_in_range:
  assumes ok: "scores_ok sc" and fit: "scores_in_range sc js (length query)"
  shows "range1_inv sc js (length query) st \<Longrightarrow>
     list_all in_range
       (refLoop_sums (updateCell1_sums sc js) (updateCell1 sc js) query rest i st) \<and>
     range1_inv sc js (length query) (refLoop (updateCell1 sc js) query rest i st)"
proof (induction rest arbitrary: i st)
  case Nil
  then show ?case by simp
next
  case (Cons rs rest)
  obtain T' P' pm' bt' where r: "refStep (updateCell1 sc js) query rs i st = (T', P', pm', bt')"
    by (cases "refStep (updateCell1 sc js) query rs i st") auto
  from range1_step [OF ok fit Cons.prems, of rs i]
  have inv: "range1_inv sc js (length query) (T', P', pm', bt')"
    and here: "list_all in_range
          (concat (map (\<lambda>q. updateCell1_sums sc js (query ! q = rs)
                          (P' ! q) (P' ! Suc q) (T' ! q)) [0..<length query]))"
    unfolding r by simp_all
  from Cons.IH [OF inv, of "Suc i"] here show ?case
    by (simp add: r)
qed

lemma refLoop_sums2_in_range:
  assumes ok: "scores_ok sc" and fit: "scores_in_range sc js (length query)"
  shows "range2_inv sc (length query) st \<Longrightarrow>
     list_all in_range
       (refLoop_sums (updateCell2_sums sc) (updateCell2 sc) query rest i st) \<and>
     range2_inv sc (length query) (refLoop (updateCell2 sc) query rest i st)"
proof (induction rest arbitrary: i st)
  case Nil
  then show ?case by simp
next
  case (Cons rs rest)
  obtain T' P' pm' bt' where r: "refStep (updateCell2 sc) query rs i st = (T', P', pm', bt')"
    by (cases "refStep (updateCell2 sc) query rs i st") auto
  from range2_step [OF ok fit Cons.prems, of rs i]
  have inv: "range2_inv sc (length query) (T', P', pm', bt')"
    and here: "list_all in_range
          (concat (map (\<lambda>q. updateCell2_sums sc (query ! q = rs)
                          (P' ! q) (P' ! Suc q) (T' ! q)) [0..<length query]))"
    unfolding r by simp_all
  from Cons.IH [OF inv, of "Suc i"] here show ?case
    by (simp add: r)
qed

lemma row_bounded_init:
  assumes ok: "scores_ok sc" and fit: "scores_in_range sc js Q" and lv: "length v = Suc Q"
  shows "row_bounded sc (initScores sc Q v)"
  unfolding row_bounded_def
proof (intro allI impI)
  fix q assume "q < length (initScores sc Q v)"
  then have q: "q \<le> Q" using initScores_char(1) [OF lv, where sc = sc] by simp
  from ok have s: "0 \<le> s_match sc" "s_mismatch sc < s_match sc" by (simp_all add: scores_ok_def)
  then have "int q * s_mismatch sc \<le> int q * s_match sc"
    by (intro mult_left_mono) simp_all
  moreover from s have "0 \<le> int q * s_match sc" by simp
  ultimately show "match (initScores sc Q v ! q) \<le> int q * s_match sc \<and>
      del (initScores sc Q v ! q) < int q * s_match sc \<and>
      ins (initScores sc Q v ! q) < int q * s_match sc"
    using initScores_in_range [OF lv fit q] by (simp add: badVal_def)
qed

lemma ins_floor_init:
  assumes fit: "scores_in_range sc js Q" and lv: "length v = Suc Q"
  shows "ins_floor sc js Q (initScores sc Q v)"
  unfolding ins_floor_def
proof (intro allI impI)
  fix q assume "q < length (initScores sc Q v)"
  then have q: "q \<le> Q" using initScores_char(1) [OF lv, where sc = sc] by simp
  have "0 \<le> (int Q + 2) * score_bound sc js"
    using score_bound_facts(1) [of sc js] by simp
  then show "- ((int Q + 2) * score_bound sc js + 10000) \<le> ins (initScores sc Q v ! q)"
    using initScores_in_range [OF lv fit q] by (simp add: badVal_def)
qed

text \<open>
  With scores that are in order and fit the query, and no positive jump score left in
  cell 0 of \<^verbatim>\<open>_score2\<close>, every sum of two scores that the two passes form is within the
  range of a score, whatever the query and the references are: on these inputs the sums
  of the model are the sums of the code.
\<close>

lemma dpPasses_sums_in_range:
  assumes ok: "scores_ok (scores al)"
    and fit: "scores_in_range (scores al) (jumpScore al) (length query)"
    and stale: "score2 al \<noteq> [] \<Longrightarrow> jump (score2 al ! 0) \<le> 0"
  shows "list_all in_range (dpPasses_sums al query ref1 ref2)"
proof -
  let ?Q = "length query" and ?sc = "scores al" and ?js = "jumpScore al"
  let ?v = "resize_scores (?Q + 1) (score1 al)"
  let ?T0 = "initScores ?sc ?Q ?v"
  let ?P0 = "resize_scores (?Q + 1) (score2 al)"
  let ?st1 = "(?T0, ?P0, ptrMat1 al, BackTrace_init)"
  have lv: "length ?v = Suc ?Q" by simp
  have jp: "jump (?P0 ! 0) \<le> 0"
    using stale by (simp add: resize_scores_0 ScoreVal_init_def)
  have jt: "jump (?T0 ! 0) \<le> 0"
    using initScores_in_range [OF lv fit, of 0] by (simp add: badVal_def)
  have i1: "range1_inv ?sc ?js ?Q ?st1"
    using initScores_char(1) [OF lv, where sc = ?sc] jp jt row_bounded_init [OF ok fit lv]
      row_lower_init [OF fit lv] ins_floor_init [OF fit lv]
    by (simp add: range1_inv_def)
  note p1 = refLoop_sums1_in_range [OF ok fit i1, of ref1 0]
  obtain T1 P1 pm1 bt1 where
    r1: "refLoop (updateCell1 ?sc ?js) query ref1 0 ?st1 = (T1, P1, pm1, bt1)"
    by (cases "refLoop (updateCell1 ?sc ?js) query ref1 0 ?st1") auto
  from p1 have lT1: "length T1 = Suc ?Q" and lP1: "length P1 = Suc ?Q"
    and jP1: "jump (P1 ! 0) \<le> 0"
    unfolding r1 by (simp_all add: range1_inv_def)
  let ?st2 = "(initScores ?sc ?Q T1, P1, ptrMat2 al, bt1)"
  have i2: "range2_inv ?sc ?Q ?st2"
    using initScores_char(1) [OF lT1, where sc = ?sc] lP1 jP1 row_bounded2_init [OF ok fit lT1]
      row_lower_init [OF fit lT1]
    by (simp add: range2_inv_def)
  note p2 = refLoop_sums2_in_range [OF ok fit i2, of ref2 0]
  have "dpPasses_sums al query ref1 ref2 =
      refLoop_sums (updateCell1_sums ?sc ?js) (updateCell1 ?sc ?js) query ref1 0 ?st1 @
      refLoop_sums (updateCell2_sums ?sc) (updateCell2 ?sc) query ref2 0 ?st2"
    using r1 by (simp add: dpPasses_sums_def Let_def)
  with p1 p2 show ?thesis by simp
qed

text \<open>
  The sums are within the range as well in the three runs with unusual scores that this
  theory evaluates (\<open>align_aborts_in_jump_state\<close> above, \<open>align_substring_soft_clipped\<close> and
  \<open>align_inverted_scores\<close> below), so that none of them rests on a sum that C++ leaves
  undefined.
\<close>

lemma unusual_scores_sums_in_range:
  "list_all in_range (dpPasses_sums (aligner_new scores_huge 0 PtrMat_init 3) ''AAA'' ''AAA'' ''A'')"
  "list_all in_range (dpPasses_sums (aligner_new scores_inverted (- 3) PtrMat_init 1) ''A'' ''A'' ''A'')"
  "list_all in_range (dpPasses_sums (aligner_new scores_steep (- 3) PtrMat_init 3) ''CA'' ''G'' ''GA'')"
  by code_simp+



text \<open>The same alignment computed: it starts at position 1 of \<open>ref1\<close>.\<close>

lemma align_substring_example:
  "align (aligner_new scores_plain (- 3) PtrMat_init 5) ''CGT'' ''ACGTA'' ''TTTT'' =
   Inr \<lparr>score = 3, alignStart = 1, apath = [\<lparr>ps_type = ALIGNPATH_MATCH, ps_length = 3\<rparr>]\<rparr>"
  by code_simp

text \<open>
  The path follows the matrix that the traceback reads. With the pointers that pass 2
  left in \<^verbatim>\<open>_ptrMat2\<close> in place of match pointers, the same call walks from the same
  start through an insert.
\<close>

lemma align_follows_ptrMat:
  "align (aligner_new scores_plain (- 3)
            (fst (snd (snd (dpPasses (aligner_new scores_plain (- 3) PtrMat_init 5)
                                 ''CGT'' ''ACGTA'' ''TTTT''))))
            5) ''CGT'' ''ACGTA'' ''TTTT'' =
   Inr \<lparr>score = 3, alignStart = 3,
        apath = [\<lparr>ps_type = ALIGNPATH_INSERT, ps_length = 2\<rparr>,
                 \<lparr>ps_type = ALIGNPATH_MATCH, ps_length = 1\<rparr>]\<rparr>"
  by code_simp

subsection \<open>Scores outside the range\<close>

text \<open>
  When the fall-off loop leaves the start of the traceback in column 0 of the query, the
  traceback loop is not entered: the whole query is soft-clipped, whatever the matrix
  holds.
\<close>

lemma backtraceStart_ptrMat:
  "backtraceStart (al\<lparr>ptrMat := pm\<rparr>) query ref1 ref2 = backtraceStart al query ref1 ref2"
  by (simp add: backtraceStart_def dpPasses_def)

lemma align_all_soft_clipped:
  assumes q: "query \<noteq> []" and r1: "ref1 \<noteq> []" and r2: "ref2 \<noteq> []"
    and bt: "backtraceStart al query ref1 ref2 =
       \<lparr>bt_max = m, bt_state = s, queryStart = 0, refStart = refSize al, isInit = True\<rparr>"
  shows "align (al\<lparr>ptrMat := pm\<rparr>) query ref1 ref2 =
     Inr \<lparr>score = m, alignStart = refSize al,
          apath = [\<lparr>ps_type = ALIGNPATH_SOFT_CLIP, ps_length = length query\<rparr>]\<rparr>"
proof -
  let ?al = "al\<lparr>ptrMat := pm\<rparr>"
  obtain T pm1 pm2 bt0 where dp: "dpPasses ?al query ref1 ref2 = (T, pm1, pm2, bt0)"
    by (cases "dpPasses ?al query ref1 ref2") auto
  from bt have fo: "fallOff (scores al) (length query) (refSize al) T bt0 =
       \<lparr>bt_max = m, bt_state = s, queryStart = 0, refStart = refSize al, isInit = True\<rparr>"
    using backtraceStart_ptrMat [where al = al and pm = pm and query = query and ?ref1.0 = ref1
        and ?ref2.0 = ref2]
    by (simp add: backtraceStart_def dp)
  show ?thesis
    using q r1 r2
    by (simp add: align_def Let_def dp fo path_segment_init_def)
      (subst backtraceLoop.simps, simp)
qed


text \<open>The same result for every matrix that the traceback may read.\<close>

lemma backtraceStart_huge:
  "backtraceStart (aligner_new scores_huge 0 PtrMat_init 3) ''AAA'' ''AAA'' ''A'' =
     \<lparr>bt_max = 2 ^ 30, bt_state = AlignState_MATCH, queryStart = 0,
      refStart = refSize (aligner_new scores_huge 0 PtrMat_init 3), isInit = True\<rparr>"
  by code_simp

lemma align_soft_clipped_any_ptrMat:
  "align (aligner_new scores_huge 0 pm 3) ''AAA'' ''AAA'' ''A'' =
     Inr \<lparr>score = 2 ^ 30, alignStart = 3,
          apath = [\<lparr>ps_type = ALIGNPATH_SOFT_CLIP, ps_length = 3\<rparr>]\<rparr>"
proof -
  have a: "aligner_new scores_huge 0 pm 3 = (aligner_new scores_huge 0 PtrMat_init 3)\<lparr>ptrMat := pm\<rparr>"
    by (simp add: aligner_new_def)
  have r: "refSize (aligner_new scores_huge 0 PtrMat_init 3) = 3"
    by (simp add: aligner_new_def)
  from align_all_soft_clipped [OF _ _ _ backtraceStart_huge, of pm] show ?thesis
    unfolding a r by simp
qed

text \<open>
  It fails as well for a scoring scheme in which a mismatch earns more than a match: with
  match 1 and mismatch 2 the query \<open>A\<close> falls off the reference for the score 2 rather
  than match its only symbol for the score 1.
\<close>

lemma align_inverted_scores:
  "align (aligner_new scores_inverted (- 3) PtrMat_init 1) ''A'' ''A'' ''A'' =
     Inr \<lparr>score = 2, alignStart = 1,
          apath = [\<lparr>ps_type = ALIGNPATH_SOFT_CLIP, ps_length = 1\<rparr>]\<rparr>"
  by code_simp

end
